theory Spec2Isabelle
  imports Complex_Main "HOL-Library.AList"
begin

section \<open>Data model of \<open>TwitchChannelPointsMiner.py\<close>\<close>

text \<open>
  The module holds one class, \<open>TwitchChannelPointsMiner\<close>, that orchestrates external
  collaborators (\<open>Twitch\<close>, \<open>WebSocketsPool\<close>, \<open>Streamer\<close>, \<open>Settings\<close>, the
  helpers of \<open>utils\<close>). The methods of the class are embedded below as functions on an
  explicit miner state. Everything a method does besides updating the miner (log lines,
  calls into collaborators, sleeps, prints) is appended to a trace of effects.

  A Python exception is the value \<open>Raise e\<close>; a call that blocks for ever (a blocking
  \<open>acquire\<close> or \<open>join\<close> whose counterpart never happens) is the value \<open>Hang\<close>.
\<close>

datatype exn =
    StreamerDoesNotExistException
  | UnboundLocalError
  | KeyError
  | AttributeError
  | TypeError
  | RuntimeError
  | IndexError

datatype 'a res = Ok 'a | Raise exn | Hang

fun bind_res :: "'a res \<Rightarrow> ('a \<Rightarrow> 'b res) \<Rightarrow> 'b res" where
  "bind_res (Ok x) f = f x"
| "bind_res (Raise e) f = Raise e"
| "bind_res Hang f = Hang"

subsection \<open>Threads and locks\<close>

text \<open>
  A \<open>threading.Thread\<close>: \<open>Running b\<close> is a started thread that has not finished, where
  \<open>b\<close> tells whether it will ever finish. \<open>join()\<close> is called without a timeout in
  the source, so it returns once the thread has finished and never otherwise.
\<close>

datatype thread = Not_started | Running bool | Finished

fun is_alive :: "thread \<Rightarrow> bool" where
  "is_alive (Running b) = True"
| "is_alive t = False"

fun join :: "thread \<Rightarrow> thread res" where
  "join Not_started = Raise RuntimeError"
| "join (Running b) = (if b then Ok Finished else Hang)"
| "join Finished = Ok Finished"

text \<open>
  The guard of a streamer, \<open>streamer.mutex\<close>, is used through \<open>locked()\<close>,
  \<open>acquire()\<close> and \<open>release()\<close>: a non-reentrant \<open>threading.Lock\<close>. A held lock
  records who holds it: a worker that will release it, a worker that never will (stalled or
  killed inside its critical section), or the thread that runs \<open>end\<close> itself.
  \<open>acquire()\<close> is called without a timeout: it waits until the holder releases.
\<close>

datatype holder = Worker_releasing | Worker_stalled | Main_thread

datatype lock = Unlocked | Locked holder

fun locked :: "lock \<Rightarrow> bool" where
  "locked Unlocked = False"
| "locked (Locked h) = True"

fun acquire :: "lock \<Rightarrow> lock res" where
  "acquire Unlocked = Ok (Locked Main_thread)"
| "acquire (Locked Worker_releasing) = Ok (Locked Main_thread)"
| "acquire (Locked Worker_stalled) = Hang"
| "acquire (Locked Main_thread) = Hang"

fun release :: "lock \<Rightarrow> lock res" where
  "release Unlocked = Raise RuntimeError"
| "release (Locked h) = Ok Unlocked"

subsection \<open>Streamers, prediction events, connections\<close>

record bet_settings =
  filter_condition :: "string option"

text \<open>A settings value is \<open>None\<close>, \<open>True\<close> or \<open>False\<close> in Python; \<open>x is True\<close> is \<open>x = Some True\<close>.\<close>

record streamer_settings =
  make_predictions :: "bool option"
  follow_raid :: "bool option"
  claim_drops :: "bool option"
  join_chat :: "bool option"
  bet :: "bet_settings option"

text \<open>
  The attributes of a \<open>Streamer\<close> that the module reads or writes. \<open>history\<close> is a
  dictionary of which only emptiness is tested; \<open>irc_chat\<close> is a \<open>ThreadChat\<close> thread
  or \<open>None\<close>.
\<close>

record streamer =
  username :: string
  channel_id :: string
  settings :: "streamer_settings option"
  init_processed :: bool
  viewer_is_mod :: bool
  channel_points :: int
  history :: "(string \<times> int) list"
  irc_chat :: "thread option"
  mutex :: lock

datatype event_status = ACTIVE | LOCKED | RESOLVED | CANCELED

record event =
  status :: event_status
  bet_confirmed :: bool
  event_streamer :: streamer

text \<open>
  A connection of the pool as the liveness sweep sees it: the flag \<open>is_reconneting\<close>
  and the number of minutes that \<open>elapsed_last_ping()\<close> returns when asked.
\<close>

record connection =
  is_reconneting :: bool
  elapsed_last_ping :: real

record ws_pool =
  ws :: "connection list"

datatype topic = PubsubTopic string "string option" "string option"

subsection \<open>Observable effects\<close>

datatype log_line =
    Multiple_sessions_error
  | Start_session string
  | Load_from_streamers nat
  | Load_from_json nat
  | Load_from_followers nat
  | Loading_data nat
  | Remove_streamer string string
  | Streamer_does_not_exist string
  | Last_ping_reconnecting nat
  | Ctrl_c_detected
  | Ending_session string
  | Logs_file string
  | Duration
  | Bet_settings_line "bet_settings option"
  | Filter_condition_line string
  | Recap string
  | Points_gained string int
  | History_line string

datatype effect =
    Log log_line
  | Print
  | Sleep
  | Login
  | Claim_all_drops
  | Thread_start string
  | Submit topic
  | Handle_reconnection nat
  | Pool_end
  | Leave_chat string
  | Settings_reset
  | Settings_append string
  | Settings_write
  | Get_channel_id string

subsection \<open>The miner\<close>

text \<open>\<open>refresh_streamers\<close> is a number of minutes, \<open>float("inf")\<close> by default, or \<open>None\<close>.\<close>

datatype minutes = Minutes real | Infinite

record miner =
  miner_username :: string
  twitch_running :: bool
  claim_drops_startup :: bool
  refresh_streamers :: "minutes option"
  streamers :: "streamer list"
  events_predictions :: "(string \<times> event) list"
  minute_watcher_thread :: "thread option"
  sync_campaigns_thread :: "thread option"
  pool :: "ws_pool option"
  session_id :: string
  running :: bool
  start_datetime :: "real option"
  base_points :: "string \<rightharpoonup> int"
  sources_json_file :: "string list"
  sources_followers :: "string list"
  logs_file :: "string option"

section \<open>\<open>__save_original\<close>\<close>

fun save_original_loop :: "streamer list \<Rightarrow> (string \<rightharpoonup> int) \<Rightarrow> (string \<rightharpoonup> int)" where
  "save_original_loop [] bp = bp"
| "save_original_loop (s # ss) bp =
     save_original_loop ss
       (case bp (username s) of
          None \<Rightarrow> bp(username s \<mapsto> channel_points s)
        | Some v \<Rightarrow> bp)"

definition save_original :: "miner \<Rightarrow> miner" where
  "save_original m = m\<lparr>base_points := save_original_loop (streamers m) (base_points m)\<rparr>"

section \<open>\<open>__print_report\<close>\<close>

text \<open>
  One prediction event of the loop over \<open>self.events_predictions\<close>. The conjunction of
  the source short-circuits: the settings of the owner are read only when the bet is
  confirmed.
\<close>

definition report_event :: "string \<times> event \<Rightarrow> effect list res" where
  "report_event ie =
     (if bet_confirmed (snd ie) then
        (case settings (event_streamer (snd ie)) of
           None \<Rightarrow> Raise AttributeError
         | Some st \<Rightarrow>
             if make_predictions st = Some True then
               (case bet st of
                  None \<Rightarrow> Raise AttributeError
                | Some b \<Rightarrow>
                    Ok ([Log (Bet_settings_line (bet st))]
                        @ (case filter_condition b of
                             None \<Rightarrow> []
                           | Some c \<Rightarrow> [Log (Filter_condition_line c)])
                        @ [Log (Recap (fst ie))]))
             else Ok [])
      else Ok [])"

fun report_events :: "(string \<times> event) list \<Rightarrow> effect list res" where
  "report_events [] = Ok []"
| "report_events (ie # ies) =
     bind_res (report_event ie) (\<lambda>out. bind_res (report_events ies) (\<lambda>rest. Ok (out @ rest)))"

definition report_streamer :: "(string \<rightharpoonup> int) \<Rightarrow> streamer \<Rightarrow> effect list res" where
  "report_streamer bp s =
     (if history s \<noteq> [] then
        (case bp (username s) of
           None \<Rightarrow> Raise KeyError
         | Some b \<Rightarrow>
             Ok [Log (Points_gained (username s) (channel_points s - b)),
                 Log (History_line (username s))])
      else Ok [])"

fun report_streamers :: "(string \<rightharpoonup> int) \<Rightarrow> streamer list \<Rightarrow> effect list res" where
  "report_streamers bp [] = Ok []"
| "report_streamers bp (s # ss) =
     bind_res (report_streamer bp s)
       (\<lambda>out. bind_res (report_streamers bp ss) (\<lambda>rest. Ok (out @ rest)))"

definition print_report :: "miner \<Rightarrow> effect list res" where
  "print_report m =
     (case start_datetime m of
        None \<Rightarrow> Raise TypeError
      | Some t \<Rightarrow>
          bind_res (report_events (events_predictions m)) (\<lambda>evs.
          bind_res (report_streamers (base_points m) (streamers m)) (\<lambda>sts.
            Ok ([Print, Log (Ending_session (session_id m))]
                @ (case logs_file m of None \<Rightarrow> [] | Some f \<Rightarrow> [Log (Logs_file f)])
                @ [Log Duration]
                @ (if events_predictions m \<noteq> [] then [Print] else [])
                @ evs
                @ [Print]
                @ sts))))"

section \<open>\<open>end\<close>: the shutdown handler\<close>

text \<open>
  The collaborators are parameters of the model: none of their code is in the module.
  \<^item> \<open>new_streamer n st\<close> is the object that \<open>Streamer(n, settings=st)\<close> builds;
  \<^item> \<open>get_channel_id\<close> is \<open>Twitch.get_channel_id\<close>, which may raise;
  \<^item> \<open>default_settings\<close> and \<open>default_bet\<close> are \<open>set_default_settings\<close> applied with
    the global defaults of \<open>Settings.streamer_settings\<close> and of its \<open>bet\<close>;
  \<^item> \<open>load_channel_points_context\<close>, \<open>check_streamer_online\<close>, \<open>viewer_is_mod_call\<close>
    (\<open>Twitch.viewer_is_mod\<close>) and \<open>leave_chat\<close> mutate the streamer they are given;
  \<^item> \<open>pool_end\<close>, \<open>handle_reconnection\<close> and \<open>submit\<close> are the operations of
    \<open>WebSocketsPool\<close>; \<open>handle_reconnection\<close> is given the index of the connection
    it is called on and may change the whole list of connections;
  \<^item> \<open>at_least_one_value_in_settings_is\<close> is the helper of \<open>utils\<close>, \<open>user_id\<close> is
    \<open>twitch_login.get_user_id()\<close>, \<open>new_pool\<close> is the pool that the constructor of
    \<open>WebSocketsPool\<close> builds;
  \<^item> \<open>sync_campaigns_returns\<close> and \<open>minute_watcher_returns\<close> tell whether the target
    of the worker thread (\<open>Twitch.sync_campaigns\<close>, \<open>Twitch.send_minute_watched_events\<close>)
    ever returns.
\<close>

record env =
  new_streamer :: "string \<Rightarrow> streamer_settings option \<Rightarrow> streamer"
  get_channel_id :: "string \<Rightarrow> string res"
  default_settings :: "streamer_settings option \<Rightarrow> streamer_settings"
  default_bet :: "bet_settings option \<Rightarrow> bet_settings"
  load_channel_points_context :: "streamer \<Rightarrow> streamer"
  check_streamer_online :: "streamer \<Rightarrow> streamer"
  viewer_is_mod_call :: "streamer \<Rightarrow> streamer"
  leave_chat :: "streamer \<Rightarrow> streamer"
  pool_end :: "ws_pool \<Rightarrow> ws_pool res"
  handle_reconnection :: "nat \<Rightarrow> connection list \<Rightarrow> connection list res"
  submit :: "topic \<Rightarrow> ws_pool \<Rightarrow> ws_pool"
  at_least_one_value_in_settings_is :: "streamer list \<Rightarrow> string \<Rightarrow> bool \<Rightarrow> bool"
  user_id :: string
  new_pool :: ws_pool
  sync_campaigns_returns :: bool
  minute_watcher_returns :: bool

text \<open>Lines 456-460: leave the chat of every streamer that has one and wait for its thread.\<close>

definition leave_one :: "env \<Rightarrow> streamer \<Rightarrow> (streamer \<times> effect list) res" where
  "leave_one env s =
     (case irc_chat s of
        None \<Rightarrow> Ok (s, [])
      | Some c \<Rightarrow>
          (case irc_chat (leave_chat env s) of
             None \<Rightarrow> Raise AttributeError
           | Some c' \<Rightarrow>
               if is_alive c' then
                 bind_res (join c')
                   (\<lambda>c''. Ok ((leave_chat env s)\<lparr>irc_chat := Some c''\<rparr>, [Leave_chat (username s)]))
               else Ok (leave_chat env s, [Leave_chat (username s)])))"

fun leave_chats :: "env \<Rightarrow> streamer list \<Rightarrow> (streamer list \<times> effect list) res" where
  "leave_chats env [] = Ok ([], [])"
| "leave_chats env (s # ss) =
     bind_res (leave_one env s) (\<lambda>r1.
     bind_res (leave_chats env ss) (\<lambda>r2. Ok (fst r1 # fst r2, snd r1 @ snd r2)))"

text \<open>Lines 465-469: \<open>join()\<close> on a worker thread that was spawned.\<close>

definition join_worker :: "thread option \<Rightarrow> thread option res" where
  "join_worker w =
     (case w of None \<Rightarrow> Ok None | Some t \<Rightarrow> bind_res (join t) (\<lambda>t'. Ok (Some t')))"

text \<open>Lines 473-476: the loop over the guards of the streamers.\<close>

definition drain_guard :: "streamer \<Rightarrow> streamer res" where
  "drain_guard s =
     (if locked (mutex s) then
        bind_res (acquire (mutex s)) (\<lambda>l. bind_res (release l) (\<lambda>l'. Ok (s\<lparr>mutex := l'\<rparr>)))
      else Ok s)"

fun drain_guards :: "streamer list \<Rightarrow> streamer list res" where
  "drain_guards [] = Ok []"
| "drain_guards (s # ss) =
     bind_res (drain_guard s) (\<lambda>s'. bind_res (drain_guards ss) (\<lambda>ss'. Ok (s' # ss')))"

text \<open>
  The handler. \<open>Ok (c, m', tr)\<close> says that \<open>sys.exit(c)\<close> was reached in miner state
  \<open>m'\<close> after the effects \<open>tr\<close>.
\<close>

definition end_handler :: "env \<Rightarrow> miner \<Rightarrow> (int \<times> miner \<times> effect list) res" where
  "end_handler env m =
     bind_res (leave_chats env (streamers m)) (\<lambda>lc.
       (case pool m of
          None \<Rightarrow> Raise AttributeError
        | Some p \<Rightarrow>
            bind_res (pool_end env p) (\<lambda>p'.
            bind_res (join_worker (minute_watcher_thread m)) (\<lambda>mw.
            bind_res (join_worker (sync_campaigns_thread m)) (\<lambda>sc.
            bind_res (drain_guards (fst lc)) (\<lambda>ss.
            bind_res
              (print_report
                 (m\<lparr>streamers := ss, running := False, twitch_running := False,
                    pool := Some p', minute_watcher_thread := mw,
                    sync_campaigns_thread := sc\<rparr>))
              (\<lambda>rep.
                 Ok (0,
                     m\<lparr>streamers := ss, running := False, twitch_running := False,
                       pool := Some p', minute_watcher_thread := mw,
                       sync_campaigns_thread := sc\<rparr>,
                     [Log Ctrl_c_detected] @ snd lc @ [Pool_end] @ rep))))))))"

section \<open>The liveness sweep of \<open>run\<close>\<close>

text \<open>
  Lines 239-248. The indices are those of \<open>range(0, len(self.ws_pool.ws))\<close>, fixed before
  the loop starts. \<open>net i\<close> is what \<open>internet_connection_available()\<close> answers when it
  is asked at index \<open>i\<close>; it is asked only when the two tests before it succeeded.
\<close>

fun sweep ::
  "env \<Rightarrow> (nat \<Rightarrow> bool) \<Rightarrow> nat list \<Rightarrow> connection list \<Rightarrow> (connection list \<times> effect list) res"
where
  "sweep env net [] cs = Ok (cs, [])"
| "sweep env net (i # js) cs =
     (if i < length cs then
        (if \<not> is_reconneting (cs ! i) \<and> elapsed_last_ping (cs ! i) > 10 \<and> net i then
           bind_res (handle_reconnection env i cs) (\<lambda>cs'.
           bind_res (sweep env net js cs') (\<lambda>r.
             Ok (fst r, [Log (Last_ping_reconnecting i), Handle_reconnection i] @ snd r)))
         else sweep env net js cs)
      else Raise IndexError)"

definition liveness_sweep ::
  "env \<Rightarrow> (nat \<Rightarrow> bool) \<Rightarrow> ws_pool \<Rightarrow> (ws_pool \<times> effect list) res"
where
  "liveness_sweep env net p =
     bind_res (sweep env net [0..<length (ws p)] (ws p)) (\<lambda>r. Ok (p\<lparr>ws := fst r\<rparr>, snd r))"

section \<open>\<open>__reload_streamers\<close>\<close>

text \<open>
  \<open>str.lower()\<close> and \<open>str.strip()\<close>, on ASCII: the letters \<open>A\<close> to \<open>Z\<close> are mapped to
  \<open>a\<close> to \<open>z\<close>, and the white space of Python (tab, line feed, vertical tab, form feed,
  carriage return, the separators 28 to 31, space) is dropped at both ends.
\<close>

definition lower_char :: "char \<Rightarrow> char" where
  "lower_char c =
     (if 65 \<le> (of_char c :: nat) \<and> (of_char c :: nat) \<le> 90
      then char_of ((of_char c :: nat) + 32) else c)"

definition str_lower :: "string \<Rightarrow> string" where
  "str_lower s = map lower_char s"

definition is_space :: "char \<Rightarrow> bool" where
  "is_space c =
     ((9 \<le> (of_char c :: nat) \<and> (of_char c :: nat) \<le> 13)
      \<or> (28 \<le> (of_char c :: nat) \<and> (of_char c :: nat) \<le> 32))"

definition str_strip :: "string \<Rightarrow> string" where
  "str_strip s = rev (dropWhile is_space (rev (dropWhile is_space s)))"

text \<open>
  An item of the \<open>streamers\<close> argument is a user name or a \<open>Streamer\<close> instance. An
  instance is taken by value, as it is when the method is called.
\<close>

datatype streamer_arg = Name string | Instance streamer

text \<open>
  \<open>streamers_dict\<close> is an association list in insertion order: \<open>AList.update\<close> keeps the
  place of a key that is there and appends a new one, as an assignment to a Python
  dictionary does. The dictionary is also the store of the method: an object is reached
  through its key, and \<open>streamers_array\<close> is kept as the list of the keys of the objects
  appended, so that a change of an object is seen wherever the object stands.
\<close>

type_synonym sdict = "(string \<times> streamer) list"

text \<open>Lines 263-272.\<close>

fun remove_missing ::
  "string list \<Rightarrow> sdict \<Rightarrow> string list \<Rightarrow> string \<Rightarrow> (string list \<times> sdict \<times> effect list) res"
where
  "remove_missing names d [] reason = Ok (names, d, [])"
| "remove_missing names d (u # us) reason =
     (if u \<in> set names then
        (case map_of d u of
           None \<Rightarrow> Raise KeyError
         | Some s \<Rightarrow>
             bind_res (remove_missing (remove1 u names) (AList.delete u d) us reason) (\<lambda>r.
               Ok (fst r, fst (snd r), Log (Remove_streamer u reason) # snd (snd r))))
      else remove_missing names d us reason)"

text \<open>Lines 288-291: the streamers of the miner that are not on the blacklist.\<close>

fun load_current :: "string list \<Rightarrow> streamer list \<Rightarrow> string list \<times> sdict \<Rightarrow> string list \<times> sdict" where
  "load_current bl [] nd = nd"
| "load_current bl (s # ss) nd =
     load_current bl ss
       (if username s \<notin> set bl
        then (fst nd @ [username s], AList.update (username s) s (snd nd))
        else nd)"

text \<open>
  Lines 294-306. The third component is the local variable \<open>username\<close>, \<open>None\<close> while it
  is unbound: the loop over the tracking file reads it before assigning it.
\<close>

definition arg_username :: "streamer_arg \<Rightarrow> string" where
  "arg_username a = (case a of Instance s \<Rightarrow> username s | Name n \<Rightarrow> str_strip (str_lower n))"

definition arg_streamer :: "env \<Rightarrow> streamer_arg \<Rightarrow> streamer" where
  "arg_streamer env a = (case a of Instance s \<Rightarrow> s | Name n \<Rightarrow> new_streamer env n None)"

fun load_static ::
  "env \<Rightarrow> string list \<Rightarrow> streamer_arg list \<Rightarrow> string list \<times> sdict \<times> string option
     \<Rightarrow> string list \<times> sdict \<times> string option"
where
  "load_static env bl [] st = st"
| "load_static env bl (a # as) st =
     load_static env bl as
       (if map_of (fst (snd st)) (arg_username a) = None \<and> arg_username a \<notin> set bl
        then (fst st @ [arg_username a],
              AList.update (arg_username a) (arg_streamer env a) (fst (snd st)),
              Some (arg_username a))
        else (fst st, fst (snd st), Some (arg_username a)))"

text \<open>
  Lines 319-334. An entry of the tracking file is a user name with the settings that
  \<open>Settings.parse\<close> made of it. The state is the list of names, the dictionary, the
  variable \<open>username\<close> and the list \<open>usernames\<close>.
\<close>

fun load_json ::
  "env \<Rightarrow> string list \<Rightarrow> (string \<times> streamer_settings option) list
     \<Rightarrow> string list \<times> sdict \<times> string option \<times> string list
     \<Rightarrow> (string list \<times> sdict \<times> string option \<times> string list) res"
where
  "load_json env bl [] st = Ok st"
| "load_json env bl (e # es) st =
     (case fst (snd (snd st)) of
        None \<Rightarrow> Raise UnboundLocalError
      | Some u0 \<Rightarrow>
          if u0 \<notin> set bl then
            load_json env bl es
              (case map_of (fst (snd st)) (fst e) of
                 None \<Rightarrow>
                   (fst st @ [fst e],
                    AList.update (fst e) (new_streamer env (fst e) (snd e)) (fst (snd st)),
                    Some (fst e), snd (snd (snd st)) @ [fst e])
               | Some old \<Rightarrow>
                   (fst st,
                    AList.update (fst e)
                      (old\<lparr>settings := settings (new_streamer env (fst e) (snd e))\<rparr>)
                      (fst (snd st)),
                    Some (fst e), snd (snd (snd st)) @ [fst e]))
          else load_json env bl es st)"

text \<open>Lines 361-364.\<close>

fun load_followers :: "env \<Rightarrow> string list \<Rightarrow> string list \<times> sdict \<Rightarrow> string list \<times> sdict" where
  "load_followers env [] nd = nd"
| "load_followers env (u # us) nd =
     load_followers env us
       (if map_of (snd nd) u = None
        then (fst nd @ [u], AList.update u (new_streamer env (str_strip (str_lower u)) None) (snd nd))
        else nd)"

text \<open>
  Lines 397-426, one user name. The result is the dictionary, whether the streamer was
  appended to \<open>streamers_array\<close>, and the effects. Only
  \<open>StreamerDoesNotExistException\<close> is caught.
\<close>

definition apply_defaults :: "env \<Rightarrow> streamer \<Rightarrow> streamer" where
  "apply_defaults env s =
     s\<lparr>settings :=
         Some ((default_settings env (settings s))
                 \<lparr>bet := Some (default_bet env (bet (default_settings env (settings s))))\<rparr>)\<rparr>"

definition open_chat :: "streamer \<Rightarrow> streamer" where
  "open_chat s =
     (case settings s of
        None \<Rightarrow> s
      | Some st \<Rightarrow>
          if join_chat st = Some True \<and> irc_chat s = None
          then s\<lparr>irc_chat := Some Not_started\<rparr> else s)"

definition register_one :: "env \<Rightarrow> string \<Rightarrow> sdict \<Rightarrow> (sdict \<times> bool \<times> effect list) res" where
  "register_one env u d =
     (case map_of d u of
        None \<Rightarrow> Raise KeyError
      | Some s \<Rightarrow>
          if init_processed s then
            Ok (AList.update u (open_chat (apply_defaults env s)) d, True,
                [Settings_append (username s)])
          else
            (case get_channel_id env u of
               Ok cid \<Rightarrow>
                 Ok (AList.update u (open_chat (apply_defaults env (s\<lparr>channel_id := cid\<rparr>))) d,
                     True, [Settings_append (username s), Sleep, Get_channel_id u])
             | Raise e \<Rightarrow>
                 if e = StreamerDoesNotExistException then
                   Ok (d, False,
                       [Settings_append (username s), Sleep, Get_channel_id u,
                        Log (Streamer_does_not_exist u)])
                 else Raise e
             | Hang \<Rightarrow> Hang))"

fun register :: "env \<Rightarrow> string list \<Rightarrow> sdict \<Rightarrow> (sdict \<times> string list \<times> effect list) res" where
  "register env [] d = Ok (d, [], [])"
| "register env (u # us) d =
     bind_res (register_one env u d) (\<lambda>r1.
     bind_res (register env us (fst r1)) (\<lambda>r2.
       Ok (fst r2, (if fst (snd r1) then [u] else []) @ fst (snd r2),
           snd (snd r1) @ snd (snd r2))))"

text \<open>Lines 435-444, one streamer of \<open>streamers_array\<close>.\<close>

definition disable_predictions :: "streamer \<Rightarrow> streamer res" where
  "disable_predictions s =
     (if viewer_is_mod s then
        (case settings s of
           None \<Rightarrow> Raise AttributeError
         | Some st \<Rightarrow> Ok (s\<lparr>settings := Some (st\<lparr>make_predictions := Some False\<rparr>)\<rparr>))
      else Ok s)"

definition populate_one :: "env \<Rightarrow> streamer \<Rightarrow> streamer res" where
  "populate_one env s =
     (if \<not> init_processed s then
        bind_res
          (disable_predictions
             (viewer_is_mod_call env (check_streamer_online env (load_channel_points_context env s))))
          (\<lambda>s'. Ok (s'\<lparr>init_processed := True\<rparr>))
      else Ok s)"

fun populate :: "env \<Rightarrow> string list \<Rightarrow> sdict \<Rightarrow> sdict res" where
  "populate env [] d = Ok d"
| "populate env (u # us) d =
     (case map_of d u of
        None \<Rightarrow> Raise KeyError
      | Some s \<Rightarrow> bind_res (populate_one env s) (\<lambda>s'. populate env us (AList.update u s' d)))"

text \<open>
  The three sources, lines 281-384: the static list, the tracking file when
  \<open>streamers_json\<close> is given (\<open>json\<close> is what \<open>Settings.read\<close> returns), the followed
  listing when \<open>followers\<close> is true (\<open>followed\<close> is what \<open>get_followers()\<close> returns).
  The result is the list of names, the dictionary, the two lists of
  \<open>self.sources_usernames\<close> and the effects.
\<close>

definition merge_json ::
  "env \<Rightarrow> string list \<Rightarrow> (string \<times> streamer_settings option) list option \<Rightarrow> string list
     \<Rightarrow> string list \<times> sdict \<times> string option
     \<Rightarrow> (string list \<times> sdict \<times> string list \<times> effect list) res"
where
  "merge_json env bl json src st =
     (case json of
        None \<Rightarrow> Ok (fst st, fst (snd st), src, [])
      | Some js \<Rightarrow>
          bind_res (load_json env bl js (fst st, fst (snd st), snd (snd st), [])) (\<lambda>r.
          bind_res
            (if src \<noteq> [] then
               remove_missing (fst r) (fst (snd r))
                 (filter (\<lambda>x. x \<notin> set (snd (snd (snd r)))) src) ''Not present in JSON file''
             else Ok (fst r, fst (snd r), []))
            (\<lambda>q. Ok (fst q, fst (snd q), snd (snd (snd r)),
                      snd (snd q) @ [Log (Load_from_json (length js))]))))"

definition merge_followers ::
  "env \<Rightarrow> string list \<Rightarrow> bool \<Rightarrow> string list \<Rightarrow> string list \<Rightarrow> string list \<times> sdict
     \<Rightarrow> (string list \<times> sdict \<times> string list \<times> effect list) res"
where
  "merge_followers env bl followers followed src nd =
     (if followers then
        bind_res
          (if src \<noteq> [] then
             remove_missing
               (fst (load_followers env (filter (\<lambda>x. x \<notin> set bl) followed) nd))
               (snd (load_followers env (filter (\<lambda>x. x \<notin> set bl) followed) nd))
               (filter (\<lambda>x. x \<notin> set (filter (\<lambda>x. x \<notin> set bl) followed)) src)
               ''User was unfollowed''
           else Ok (fst (load_followers env (filter (\<lambda>x. x \<notin> set bl) followed) nd),
                    snd (load_followers env (filter (\<lambda>x. x \<notin> set bl) followed) nd), []))
          (\<lambda>q. Ok (fst q, fst (snd q), filter (\<lambda>x. x \<notin> set bl) followed,
                    snd (snd q)
                    @ [Log (Load_from_followers (length (filter (\<lambda>x. x \<notin> set bl) followed)))]))
      else Ok (fst nd, snd nd, src, []))"

definition merge_sources ::
  "env \<Rightarrow> miner \<Rightarrow> streamer_arg list \<Rightarrow> string list
     \<Rightarrow> (string \<times> streamer_settings option) list option \<Rightarrow> bool \<Rightarrow> string list
     \<Rightarrow> (string list \<times> sdict \<times> string list \<times> string list \<times> effect list) res"
where
  "merge_sources env m args bl json followers followed =
     bind_res
       (merge_json env bl json (sources_json_file m)
          (load_static env bl args
             (fst (load_current bl (streamers m) ([], [])),
              snd (load_current bl (streamers m) ([], [])), None)))
       (\<lambda>j.
     bind_res
       (merge_followers env bl followers followed (sources_followers m) (fst j, fst (snd j)))
       (\<lambda>f.
          Ok (fst f, fst (snd f), fst (snd (snd j)), fst (snd (snd f)),
              [Settings_reset, Log (Load_from_streamers (length args))]
              @ snd (snd (snd j)) @ snd (snd (snd f)))))"

text \<open>
  The whole method. It returns \<open>streamers_array\<close>, the miner with
  \<open>self.sources_usernames\<close> updated, and the effects.
\<close>

definition reload_streamers ::
  "env \<Rightarrow> miner \<Rightarrow> streamer_arg list \<Rightarrow> string list
     \<Rightarrow> (string \<times> streamer_settings option) list option \<Rightarrow> bool \<Rightarrow> string list
     \<Rightarrow> (streamer list \<times> miner \<times> effect list) res"
where
  "reload_streamers env m args bl json followers followed =
     bind_res (merge_sources env m args bl json followers followed) (\<lambda>s.
     bind_res (register env (fst s) (fst (snd s))) (\<lambda>r.
     bind_res (populate env (fst (snd r)) (fst r)) (\<lambda>d.
       Ok (List.map_filter (map_of d) (fst (snd r)),
           m\<lparr>sources_json_file := fst (snd (snd s)),
             sources_followers := fst (snd (snd (snd s)))\<rparr>,
           snd (snd (snd (snd s)))
           @ [Log (Loading_data (length (filter (\<lambda>e. \<not> init_processed (snd e)) (fst (snd s)))))]
           @ snd (snd r)
           @ (case json of None \<Rightarrow> [] | Some js \<Rightarrow> [Settings_write])))))"

section \<open>\<open>run\<close> and \<open>mine\<close>\<close>

text \<open>
  The arguments of \<open>run\<close>; \<open>arg_json\<close> says whether \<open>streamers_json\<close> is given. What
  the tracking file holds and whom the user follows is read anew by every call of
  \<open>__reload_streamers\<close>: an observation.
\<close>

record run_args =
  arg_streamers :: "streamer_arg list"
  arg_json :: bool
  arg_blacklist :: "string list"
  arg_followers :: bool

record observation =
  json_file :: "(string \<times> streamer_settings option) list"
  followed :: "string list"

definition read_json :: "run_args \<Rightarrow> observation \<Rightarrow> (string \<times> streamer_settings option) list option" where
  "read_json args ob = (if arg_json args then Some (json_file ob) else None)"

text \<open>Lines 221-232: the topics of one streamer.\<close>

definition streamer_topics :: "streamer \<Rightarrow> topic list res" where
  "streamer_topics s =
     (case settings s of
        None \<Rightarrow> Raise AttributeError
      | Some st \<Rightarrow>
          Ok ([PubsubTopic ''video-playback-by-id'' None (Some (username s))]
              @ (if follow_raid st = Some True
                 then [PubsubTopic ''raid'' None (Some (username s))] else [])
              @ (if make_predictions st = Some True
                 then [PubsubTopic ''predictions-channel-v1'' None (Some (username s))] else [])))"

fun streamers_topics :: "streamer list \<Rightarrow> topic list res" where
  "streamers_topics [] = Ok []"
| "streamers_topics (s # ss) =
     bind_res (streamer_topics s) (\<lambda>ts. bind_res (streamers_topics ss) (\<lambda>us. Ok (ts @ us)))"

text \<open>Lines 153-233, the branch of a miner that is not running; \<open>t0\<close> is \<open>datetime.now()\<close>.\<close>

definition start_session ::
  "env \<Rightarrow> run_args \<Rightarrow> real \<Rightarrow> observation \<Rightarrow> miner \<Rightarrow> (miner \<times> effect list) res"
where
  "start_session env args t0 ob m =
     bind_res
       (reload_streamers env (m\<lparr>running := True, start_datetime := Some t0\<rparr>)
          (arg_streamers args) (arg_blacklist args) (read_json args ob) (arg_followers args)
          (followed ob))
       (\<lambda>r.
     bind_res (streamers_topics (fst r)) (\<lambda>ts.
       Ok ((save_original ((fst (snd r))\<lparr>streamers := fst r\<rparr>))
             \<lparr>sync_campaigns_thread :=
                (if at_least_one_value_in_settings_is env (fst r) ''claim_drops'' True
                 then Some (Running (sync_campaigns_returns env))
                 else sync_campaigns_thread m),
              minute_watcher_thread := Some (Running (minute_watcher_returns env)),
              pool :=
                Some (foldl (\<lambda>p tp. submit env tp p) (new_pool env)
                        ([PubsubTopic ''community-points-user-v1'' (Some (user_id env)) None]
                         @ (if at_least_one_value_in_settings_is env (fst r) ''make_predictions'' True
                            then [PubsubTopic ''predictions-user-v1'' (Some (user_id env)) None]
                            else [])
                         @ ts))\<rparr>,
           [Log (Start_session (session_id m)), Login]
           @ (if claim_drops_startup m then [Claim_all_drops] else [])
           @ snd (snd r)
           @ (if at_least_one_value_in_settings_is env (fst r) ''claim_drops'' True
              then [Thread_start ''Sync campaigns/inventory'', Sleep] else [])
           @ [Thread_start ''Minute watcher'']
           @ map Submit
               ([PubsubTopic ''community-points-user-v1'' (Some (user_id env)) None]
                @ (if at_least_one_value_in_settings_is env (fst r) ''make_predictions'' True
                   then [PubsubTopic ''predictions-user-v1'' (Some (user_id env)) None]
                   else [])
                @ ts))))"

text \<open>
  One pass of the loop of lines 235-260. A tick is what the pass finds: the time, what the
  other threads did to the pool since the last pass, the answers of
  \<open>internet_connection_available()\<close>, and the observation of a refresh. The second
  component of the state is the local variable \<open>refresh_streamers\<close>. The refresh passes no
  blacklist.
\<close>

record tick =
  now :: real
  drift :: "ws_pool \<Rightarrow> ws_pool"
  net :: "nat \<Rightarrow> bool"
  seen :: observation

definition refresh_due :: "minutes option \<Rightarrow> real \<Rightarrow> real \<Rightarrow> bool" where
  "refresh_due r t since =
     (case r of
        None \<Rightarrow> False
      | Some Infinite \<Rightarrow> False
      | Some (Minutes x) \<Rightarrow> (t - since) / 60 > x)"

definition refresh :: "env \<Rightarrow> run_args \<Rightarrow> observation \<Rightarrow> miner \<Rightarrow> (miner \<times> effect list) res" where
  "refresh env args ob m =
     bind_res
       (reload_streamers env m (arg_streamers args) [] (read_json args ob) (arg_followers args)
          (followed ob))
       (\<lambda>r. Ok (save_original ((fst (snd r))\<lparr>streamers := fst r\<rparr>), snd (snd r)))"

definition run_pass ::
  "env \<Rightarrow> run_args \<Rightarrow> tick \<Rightarrow> miner \<times> real \<Rightarrow> ((miner \<times> real) \<times> effect list) res"
where
  "run_pass env args t st =
     (case pool (fst st) of
        None \<Rightarrow> Raise AttributeError
      | Some p \<Rightarrow>
          bind_res (liveness_sweep env (net t) (drift t p)) (\<lambda>sw.
            if refresh_due (refresh_streamers (fst st)) (now t) (snd st) then
              bind_res (refresh env args (seen t) ((fst st)\<lparr>pool := Some (fst sw)\<rparr>)) (\<lambda>r.
                Ok ((fst r, now t), [Sleep] @ snd sw @ snd r))
            else Ok (((fst st)\<lparr>pool := Some (fst sw)\<rparr>, snd st), [Sleep] @ snd sw)))"

text \<open>
  The loop runs as long as \<open>self.running\<close> holds, which only the signal handler
  \<open>end\<close> changes. \<open>run_loop\<close> gives the state after the passes of a finite list of
  ticks: those made before the signal arrives.
\<close>

fun run_loop ::
  "env \<Rightarrow> run_args \<Rightarrow> tick list \<Rightarrow> miner \<times> real \<Rightarrow> ((miner \<times> real) \<times> effect list) res"
where
  "run_loop env args [] st = Ok (st, [])"
| "run_loop env args (t # ts) st =
     (if running (fst st) then
        bind_res (run_pass env args t st) (\<lambda>r.
        bind_res (run_loop env args ts (fst r)) (\<lambda>q. Ok (fst q, snd r @ snd q)))
      else Ok (st, []))"

text \<open>\<open>run\<close>; \<open>t1\<close> is the \<open>time.time()\<close> of line 234.\<close>

definition run ::
  "env \<Rightarrow> run_args \<Rightarrow> real \<Rightarrow> real \<Rightarrow> observation \<Rightarrow> tick list \<Rightarrow> miner \<Rightarrow> (miner \<times> effect list) res"
where
  "run env args t0 t1 ob ticks m =
     (if running m then Ok (m, [Log Multiple_sessions_error])
      else
        bind_res (start_session env args t0 ob m) (\<lambda>s.
        bind_res (run_loop env args ticks (fst s, t1)) (\<lambda>l.
          Ok (fst (fst l), snd s @ snd l))))"

definition mine ::
  "env \<Rightarrow> run_args \<Rightarrow> real \<Rightarrow> real \<Rightarrow> observation \<Rightarrow> tick list \<Rightarrow> miner \<Rightarrow> (miner \<times> effect list) res"
where
  "mine env args t0 t1 ob ticks m = run env args t0 t1 ob ticks m"

section \<open>A concrete setting\<close>

text \<open>
  Collaborators and a miner on which the definitions above can be evaluated. The
  constructor stores the user name in lower case without surrounding white space; the user
  \<open>ghost\<close> does not exist upstream; the viewer is a moderator of the channel \<open>modded\<close>.
\<close>

definition ex_bet :: bet_settings where
  "ex_bet = \<lparr>filter_condition = None\<rparr>"

definition ex_settings :: streamer_settings where
  "ex_settings = \<lparr>make_predictions = Some True, follow_raid = Some False,
     claim_drops = Some False, join_chat = Some False, bet = Some ex_bet\<rparr>"

definition ex_new_streamer :: "string \<Rightarrow> streamer_settings option \<Rightarrow> streamer" where
  "ex_new_streamer n st =
     \<lparr>username = str_strip (str_lower n), channel_id = [], settings = st,
      init_processed = False, viewer_is_mod = False, channel_points = 0, history = [],
      irc_chat = None, mutex = Unlocked\<rparr>"

definition ex_setting_is :: "streamer list \<Rightarrow> string \<Rightarrow> bool \<Rightarrow> bool" where
  "ex_setting_is ss k v =
     list_ex (\<lambda>s. case settings s of
                    None \<Rightarrow> False
                  | Some st \<Rightarrow>
                      (if k = ''make_predictions'' then make_predictions st
                       else if k = ''claim_drops'' then claim_drops st else None) = Some v) ss"

definition ex_env :: env where
  "ex_env =
     \<lparr>new_streamer = ex_new_streamer,
      get_channel_id =
        (\<lambda>u. if u = ''ghost'' then Raise StreamerDoesNotExistException else Ok (''id-'' @ u)),
      default_settings = (\<lambda>s. case s of None \<Rightarrow> ex_settings | Some st \<Rightarrow> st),
      default_bet = (\<lambda>b. case b of None \<Rightarrow> ex_bet | Some c \<Rightarrow> c),
      load_channel_points_context = (\<lambda>s. s\<lparr>channel_points := 100\<rparr>),
      check_streamer_online = (\<lambda>s. s),
      viewer_is_mod_call = (\<lambda>s. s\<lparr>viewer_is_mod := (username s = ''modded'')\<rparr>),
      leave_chat = (\<lambda>s. s),
      pool_end = Ok,
      handle_reconnection = (\<lambda>i cs. Ok (cs[i := (cs ! i)\<lparr>is_reconneting := True\<rparr>])),
      submit = (\<lambda>t p. p),
      at_least_one_value_in_settings_is = ex_setting_is,
      user_id = ''42'',
      new_pool = \<lparr>ws = []\<rparr>,
      sync_campaigns_returns = True,
      minute_watcher_returns = True\<rparr>"

definition ex_miner :: miner where
  "ex_miner =
     \<lparr>miner_username = ''viewer'', twitch_running = True, claim_drops_startup = False,
      refresh_streamers = Some Infinite, streamers = [], events_predictions = [],
      minute_watcher_thread = None, sync_campaigns_thread = None, pool = None,
      session_id = ''session'', running = False, start_datetime = None,
      base_points = Map.empty, sources_json_file = [], sources_followers = [],
      logs_file = None\<rparr>"

text \<open>A streamer \<open>a\<close> that entered the session with 100 points and now has 150.\<close>

definition ex_streamer_a :: streamer where
  "ex_streamer_a =
     \<lparr>username = ''a'', channel_id = ''id-a'', settings = Some ex_settings,
      init_processed = True, viewer_is_mod = False, channel_points = 150,
      history = [(''WATCH'', 50)], irc_chat = None, mutex = Unlocked\<rparr>"

text \<open>A streamer \<open>b\<close> with 50 points and no history: it was offline all along.\<close>

definition ex_streamer_b :: streamer where
  "ex_streamer_b =
     \<lparr>username = ''b'', channel_id = ''id-b'', settings = Some ex_settings,
      init_processed = True, viewer_is_mod = False, channel_points = 50,
      history = [], irc_chat = None, mutex = Unlocked\<rparr>"

text \<open>A session under way with both streamers, refreshed every minute.\<close>

definition ex_session :: miner where
  "ex_session =
     ex_miner\<lparr>running := True, start_datetime := Some 0, streamers := [ex_streamer_a, ex_streamer_b],
       base_points := [''a'' \<mapsto> 100, ''b'' \<mapsto> 50], pool := Some \<lparr>ws = []\<rparr>,
       minute_watcher_thread := Some (Running True), refresh_streamers := Some (Minutes 1)\<rparr>"

definition ex_args :: run_args where
  "ex_args = \<lparr>arg_streamers = [Name ''a'', Name ''b''], arg_json = False, arg_blacklist = [],
     arg_followers = False\<rparr>"

definition ex_observation :: observation where
  "ex_observation = \<lparr>json_file = [], followed = []\<rparr>"

definition ex_tick :: tick where
  "ex_tick = \<lparr>now = 120, drift = (\<lambda>p. p), net = (\<lambda>i. True), seen = ex_observation\<rparr>"

text \<open>
  Two prediction events of \<open>a\<close>: a resolved one on which no bet was confirmed, and an
  active one with a confirmed bet.
\<close>

definition ex_resolved_event :: event where
  "ex_resolved_event = \<lparr>status = RESOLVED, bet_confirmed = False, event_streamer = ex_streamer_a\<rparr>"

definition ex_active_event :: event where
  "ex_active_event = \<lparr>status = ACTIVE, bet_confirmed = True, event_streamer = ex_streamer_a\<rparr>"

definition ex_betting :: miner where
  "ex_betting =
     ex_session\<lparr>events_predictions := [(''e1'', ex_resolved_event), (''e2'', ex_active_event)]\<rparr>"



text \<open>The session with a minute watcher that never returns.\<close>

definition ex_watcher_stuck :: miner where
  "ex_watcher_stuck = ex_session\<lparr>minute_watcher_thread := Some (Running False)\<rparr>"

text \<open>
  When a reconnection changes nothing but the connection it is called on, the sweep of
  other indices leaves a connection as it was.
\<close>

definition local_reconnection :: "env \<Rightarrow> bool" where
  "local_reconnection env \<longleftrightarrow>
     (\<forall>j cs cs'. handle_reconnection env j cs = Ok cs' \<longrightarrow>
        length cs' = length cs \<and> (\<forall>k. k \<noteq> j \<longrightarrow> cs' ! k = cs ! k))"

text \<open>
  A pool of four connections: the first silent for eleven minutes, the second for three,
  the third silent for twenty minutes but already reconnecting, the fourth silent for
  fifteen minutes.
\<close>

definition ex_pool :: ws_pool where
  "ex_pool =
     \<lparr>ws = [\<lparr>is_reconneting = False, elapsed_last_ping = 11\<rparr>,
            \<lparr>is_reconneting = False, elapsed_last_ping = 3\<rparr>,
            \<lparr>is_reconneting = True, elapsed_last_ping = 20\<rparr>,
            \<lparr>is_reconneting = False, elapsed_last_ping = 15\<rparr>]\<rparr>"

text \<open>
  The streamers that the registration loop leaves out: not yet processed, and unknown to
  \<open>get_channel_id\<close>.
\<close>

definition not_found :: "env \<Rightarrow> sdict \<Rightarrow> string \<Rightarrow> bool" where
  "not_found env d u =
     (case map_of d u of
        None \<Rightarrow> False
      | Some s \<Rightarrow>
          \<not> init_processed s \<and> get_channel_id env u = Raise StreamerDoesNotExistException)"

text \<open>The dictionary and the array that a run of the registration loop ends with.\<close>

definition registered :: "(sdict \<times> string list \<times> effect list) res \<Rightarrow> (sdict \<times> string list) res" where
  "registered r = bind_res r (\<lambda>x. Ok (fst x, fst (snd x)))"

text \<open>The dictionary of three new streamers, of which \<open>ghost\<close> does not exist upstream.\<close>

definition ex_dict :: sdict where
  "ex_dict = [(''a'', ex_new_streamer ''a'' None), (''ghost'', ex_new_streamer ''ghost'' None),
              (''b'', ex_new_streamer ''b'' None)]"

text \<open>
  What the last loop of the method establishes for a streamer it initialises: the streamer
  is marked as processed, and predictions are off when the viewer is a moderator.
\<close>

definition initialised :: "streamer \<Rightarrow> bool" where
  "initialised s \<longleftrightarrow>
     init_processed s
     \<and> (viewer_is_mod s \<longrightarrow> (\<exists>st. settings s = Some st \<and> make_predictions st = Some False))"

text \<open>A dictionary of streamers none of which is processed yet.\<close>

definition unprocessed :: "sdict \<Rightarrow> bool" where
  "unprocessed d \<longleftrightarrow> (\<forall>k s. map_of d k = Some s \<longrightarrow> \<not> init_processed s)"

text \<open>The constructor of \<open>Streamer\<close> builds streamers that are not processed yet.\<close>

definition fresh_constructor :: "env \<Rightarrow> bool" where
  "fresh_constructor env \<longleftrightarrow> (\<forall>n st. \<not> init_processed (new_streamer env n st))"

text \<open>The same collaborators with a constructor that stores the user name as it is given.\<close>

definition ex_raw_streamer :: "string \<Rightarrow> streamer_settings option \<Rightarrow> streamer" where
  "ex_raw_streamer n st =
     \<lparr>username = n, channel_id = [], settings = st,
      init_processed = False, viewer_is_mod = False, channel_points = 0, history = [],
      irc_chat = None, mutex = Unlocked\<rparr>"

definition ex_env_raw :: env where
  "ex_env_raw = ex_env\<lparr>new_streamer := ex_raw_streamer\<rparr>"

section \<open>Properties\<close>

lemma save_original_loop_keeps:
  "bp k = Some v \<Longrightarrow> save_original_loop ss bp k = Some v"
proof (induction ss arbitrary: bp)
  case Nil
  then show ?case by simp
next
  case (Cons s ss)
  show ?case
  proof (cases "bp (username s)")
    case None
    with Cons.prems have "username s \<noteq> k" by auto
    with Cons.prems have "(bp(username s \<mapsto> channel_points s)) k = Some v" by simp
    then have "save_original_loop ss (bp(username s \<mapsto> channel_points s)) k = Some v"
      by (rule Cons.IH)
    with None show ?thesis by simp
  next
    case (Some w)
    from Cons.prems have "save_original_loop ss bp k = Some v" by (rule Cons.IH)
    with Some show ?thesis by simp
  qed
qed

lemma bind_res_Ok_iff:
  "bind_res r f = Ok y \<longleftrightarrow> (\<exists>x. r = Ok x \<and> f x = Ok y)"
  by (cases r) simp_all

lemma bind_res_Hang_iff:
  "bind_res r f = Hang \<longleftrightarrow> r = Hang \<or> (\<exists>x. r = Ok x \<and> f x = Hang)"
  by (cases r) simp_all

lemma save_original_keeps:
  "base_points m k = Some v \<Longrightarrow> base_points (save_original m) k = Some v"
  by (simp add: save_original_def save_original_loop_keeps)

lemma reload_base_points:
  "reload_streamers env m args bl json fl fd = Ok r \<Longrightarrow> base_points (fst (snd r)) = base_points m"
  unfolding reload_streamers_def
  by (auto simp: bind_res_Ok_iff)

lemma refresh_keeps:
  assumes "refresh env args ob m = Ok r" and "base_points m k = Some v"
  shows "base_points (fst r) k = Some v"
proof -
  from assms(1) obtain q where q: "reload_streamers env m (arg_streamers args) [] (read_json args ob) (arg_followers args) (followed ob) = Ok q"
    and r: "r = (save_original ((fst (snd q))\<lparr>streamers := fst q\<rparr>), snd (snd q))"
    unfolding refresh_def by (auto simp: bind_res_Ok_iff)
  from reload_base_points [OF q] assms(2)
  have "base_points ((fst (snd q))\<lparr>streamers := fst q\<rparr>) k = Some v" by simp
  then show ?thesis unfolding r fst_conv by (rule save_original_keeps)
qed

lemma run_pass_keeps:
  assumes "run_pass env args t st = Ok r" and "base_points (fst st) k = Some v"
  shows "base_points (fst (fst r)) k = Some v"
proof -
  from assms(1) obtain p sw where p: "pool (fst st) = Some p"
    and sw: "liveness_sweep env (net t) (drift t p) = Ok sw"
    and rest: "(if refresh_due (refresh_streamers (fst st)) (now t) (snd st) then
              bind_res (refresh env args (seen t) ((fst st)\<lparr>pool := Some (fst sw)\<rparr>)) (\<lambda>r.
                Ok ((fst r, now t), [Sleep] @ snd sw @ snd r))
            else Ok (((fst st)\<lparr>pool := Some (fst sw)\<rparr>, snd st), [Sleep] @ snd sw)) = Ok r"
    unfolding run_pass_def by (auto simp: bind_res_Ok_iff split: option.splits)
  show ?thesis
  proof (cases "refresh_due (refresh_streamers (fst st)) (now t) (snd st)")
    case True
    with rest obtain q where q: "refresh env args (seen t) ((fst st)\<lparr>pool := Some (fst sw)\<rparr>) = Ok q"
      and r: "r = ((fst q, now t), [Sleep] @ snd sw @ snd q)"
      by (auto simp: bind_res_Ok_iff)
    from assms(2) have "base_points ((fst st)\<lparr>pool := Some (fst sw)\<rparr>) k = Some v" by simp
    from refresh_keeps [OF q this] show ?thesis by (simp add: r)
  next
    case False
    with rest assms(2) show ?thesis by auto
  qed
qed

lemma run_loop_keeps:
  "run_loop env args ticks st = Ok r \<Longrightarrow> base_points (fst st) k = Some v
     \<Longrightarrow> base_points (fst (fst r)) k = Some v"
proof (induction ticks arbitrary: st r)
  case Nil
  then show ?case by auto
next
  case (Cons t ts)
  show ?case
  proof (cases "running (fst st)")
    case True
    with Cons.prems(1) obtain p q where p: "run_pass env args t st = Ok p"
      and q: "run_loop env args ts (fst p) = Ok q" and r: "r = (fst q, snd p @ snd q)"
      by (auto simp: bind_res_Ok_iff)
    from run_pass_keeps [OF p Cons.prems(2)] have "base_points (fst (fst p)) k = Some v" .
    from Cons.IH [OF q this] show ?thesis by (simp add: r)
  next
    case False
    with Cons.prems show ?thesis by auto
  qed
qed

text \<open>
  C8. \<open>__save_original\<close> never overwrites a baseline that is recorded: the entry of a
  user name stays what it is through the call, and through the loop of \<open>run\<close> with any
  number of passes and refresh cycles, each of which calls it again.
\<close>

theorem save_original_never_overwrites:
  "base_points m k = Some v \<Longrightarrow>
     base_points (save_original m) k = Some v
     \<and> (\<forall>env args ticks t r. run_loop env args ticks (m, t) = Ok r
           \<longrightarrow> base_points (fst (fst r)) k = Some v)"
  using save_original_keeps [of m k v] run_loop_keeps [of _ _ _ "(m, _)" _ k v]
  by auto

theorem save_original_never_overwrites_witness:
  "base_points ex_session ''a'' = Some 100
   \<and> base_points (save_original ex_session) ''a'' = Some 100
   \<and> (\<exists>r. run_loop ex_env ex_args [ex_tick] (ex_session, 0) = Ok r
          \<and> length (streamers (fst (fst r))) = 2
          \<and> base_points (fst (fst r)) ''a'' = Some 100)"
proof -
  have b: "base_points ex_session ''a'' = Some 100"
    by (simp add: ex_session_def)
  have "case run_loop ex_env ex_args [ex_tick] (ex_session, 0) of
          Ok r \<Rightarrow> length (streamers (fst (fst r))) = 2 | Raise e \<Rightarrow> False | Hang \<Rightarrow> False"
    by code_simp
  then obtain r where r: "run_loop ex_env ex_args [ex_tick] (ex_session, 0) = Ok r"
    and l: "length (streamers (fst (fst r))) = 2"
    by (auto split: res.splits)
  from save_original_never_overwrites [OF b] r l b show ?thesis by blast
qed

text \<open>
  C9. \<open>run\<close> and \<open>mine\<close> on a miner that is running return the miner as it is, and all
  they do is log the error: no login, no thread, no topic.
\<close>

theorem run_while_running_no_effect:
  "running m \<Longrightarrow>
     run env args t0 t1 ob ticks m = Ok (m, [Log Multiple_sessions_error])
     \<and> mine env args t0 t1 ob ticks m = Ok (m, [Log Multiple_sessions_error])"
  by (simp add: run_def mine_def)


theorem run_while_running_no_effect_witness:
  "running ex_session
   \<and> run ex_env ex_args 0 0 ex_observation [ex_tick] ex_session
       = Ok (ex_session, [Log Multiple_sessions_error])
   \<and> mine ex_env ex_args 0 0 ex_observation [ex_tick] ex_session
       = Ok (ex_session, [Log Multiple_sessions_error])"
proof -
  have r: "running ex_session"
    by (simp add: ex_session_def)
  from run_while_running_no_effect [OF r] r show ?thesis by simp
qed

lemma report_event_gain:
  "report_event ie = Ok out \<Longrightarrow> Log (Points_gained u g) \<notin> set out"
  unfolding report_event_def
  by (auto split: if_splits option.splits)

lemma report_events_gain:
  "report_events ies = Ok out \<Longrightarrow> Log (Points_gained u g) \<notin> set out"
proof (induction ies arbitrary: out)
  case Nil
  then show ?case by auto
next
  case (Cons ie ies)
  from Cons.prems obtain o1 o2 where a: "report_event ie = Ok o1"
    and b: "report_events ies = Ok o2" and c: "out = o1 @ o2"
    by (auto simp: bind_res_Ok_iff)
  from report_event_gain [OF a] Cons.IH [OF b] c show ?case by simp
qed

lemma report_streamers_gain:
  assumes "\<forall>s\<in>set ss. history s \<noteq> [] \<longrightarrow> bp (username s) \<noteq> None"
  shows "\<exists>out. report_streamers bp ss = Ok out
           \<and> (\<forall>u g. Log (Points_gained u g) \<in> set out \<longleftrightarrow>
                  (\<exists>s\<in>set ss. history s \<noteq> [] \<and> username s = u
                      \<and> bp u = Some (channel_points s - g)))"
  using assms
proof (induction ss)
  case Nil
  then show ?case by simp
next
  case (Cons s ss)
  then obtain o2 where o2: "report_streamers bp ss = Ok o2"
    and i2: "\<forall>u g. Log (Points_gained u g) \<in> set o2 \<longleftrightarrow>
                  (\<exists>s\<in>set ss. history s \<noteq> [] \<and> username s = u
                      \<and> bp u = Some (channel_points s - g))"
    by auto
  show ?case
  proof (cases "history s = []")
    case True
    then have "report_streamer bp s = Ok []" by (simp add: report_streamer_def)
    with o2 i2 True show ?thesis by simp
  next
    case False
    with Cons.prems obtain b where b: "bp (username s) = Some b" by auto
    with False have "report_streamer bp s =
        Ok [Log (Points_gained (username s) (channel_points s - b)), Log (History_line (username s))]"
      by (simp add: report_streamer_def)
    with o2 i2 False b show ?thesis by auto
  qed
qed

text \<open>
  C3, as the code has it. The report gives a line of points gained for the streamers whose
  history is not empty, and for no other: the gain is the balance of the streamer minus
  the baseline recorded under its user name. The report is produced whenever the session
  has a start time, the recap of the events raises nothing and each such streamer has a
  baseline.
\<close>

theorem report_gain_of_streamers_with_history:
  assumes "start_datetime m \<noteq> None"
    and "report_events (events_predictions m) = Ok evs"
    and "\<forall>s\<in>set (streamers m). history s \<noteq> [] \<longrightarrow> base_points m (username s) \<noteq> None"
  shows "\<exists>rep. print_report m = Ok rep
           \<and> (\<forall>u g. Log (Points_gained u g) \<in> set rep \<longleftrightarrow>
                  (\<exists>s\<in>set (streamers m). history s \<noteq> [] \<and> username s = u
                      \<and> base_points m u = Some (channel_points s - g)))"
proof -
  from report_streamers_gain [OF assms(3)] obtain out
    where out: "report_streamers (base_points m) (streamers m) = Ok out"
      and iff: "\<forall>u g. Log (Points_gained u g) \<in> set out \<longleftrightarrow>
                  (\<exists>s\<in>set (streamers m). history s \<noteq> [] \<and> username s = u
                      \<and> base_points m u = Some (channel_points s - g))"
    by blast
  from assms(1) obtain t where t: "start_datetime m = Some t" by auto
  have no: "\<And>u g. Log (Points_gained u g) \<notin> set evs"
    using report_events_gain [OF assms(2)] .
  have "print_report m = Ok ([Print, Log (Ending_session (session_id m))]
                @ (case logs_file m of None \<Rightarrow> [] | Some f \<Rightarrow> [Log (Logs_file f)])
                @ [Log Duration]
                @ (if events_predictions m \<noteq> [] then [Print] else [])
                @ evs @ [Print] @ out)"
    by (simp add: print_report_def t assms(2) out)
  moreover have "\<forall>u g. Log (Points_gained u g) \<in> set ([Print, Log (Ending_session (session_id m))]
                @ (case logs_file m of None \<Rightarrow> [] | Some f \<Rightarrow> [Log (Logs_file f)])
                @ [Log Duration]
                @ (if events_predictions m \<noteq> [] then [Print] else [])
                @ evs @ [Print] @ out) \<longleftrightarrow> Log (Points_gained u g) \<in> set out"
    using no by (auto split: option.splits)
  ultimately show ?thesis using iff by simp
qed

text \<open>
  C3 as stated fails: the streamer \<open>b\<close> is tracked, with a baseline of 50 points, but its
  history is empty and the report has no line for it.
\<close>

theorem report_gain_every_streamer_counterexample:
  "print_report ex_session =
     Ok [Print, Log (Ending_session ''session''), Log Duration, Print,
         Log (Points_gained ''a'' 50), Log (History_line ''a'')]"
  by (simp add: print_report_def ex_session_def ex_miner_def ex_streamer_a_def
        ex_streamer_b_def report_streamer_def)

theorem report_gain_of_streamers_with_history_witness:
  "start_datetime ex_session \<noteq> None
   \<and> report_events (events_predictions ex_session) = Ok []
   \<and> (\<exists>rep. print_report ex_session = Ok rep \<and> Log (Points_gained ''a'' 50) \<in> set rep
          \<and> Log (Points_gained ''b'' 0) \<notin> set rep)"
proof -
  have a: "start_datetime ex_session \<noteq> None"
    by (simp add: ex_session_def)
  have b: "report_events (events_predictions ex_session) = Ok []"
    by (simp add: ex_session_def ex_miner_def)
  have c: "\<forall>s\<in>set (streamers ex_session). history s \<noteq> [] \<longrightarrow> base_points ex_session (username s) \<noteq> None"
    by (simp add: ex_session_def ex_streamer_a_def ex_streamer_b_def)
  from report_gain_of_streamers_with_history [OF a b c] obtain rep
    where r: "print_report ex_session = Ok rep"
      and i: "\<forall>u g. Log (Points_gained u g) \<in> set rep \<longleftrightarrow>
                  (\<exists>s\<in>set (streamers ex_session). history s \<noteq> [] \<and> username s = u
                      \<and> base_points ex_session u = Some (channel_points s - g))"
    by blast
  have "Log (Points_gained ''a'' 50) \<in> set rep"
    unfolding i [rule_format]
    by (simp add: ex_session_def ex_streamer_a_def ex_streamer_b_def)
  moreover have "Log (Points_gained ''b'' 0) \<notin> set rep"
    unfolding i [rule_format]
    by (simp add: ex_session_def ex_streamer_a_def ex_streamer_b_def)
  ultimately show ?thesis using a b r by blast
qed

lemma report_event_recap:
  "report_event ie = Ok out \<Longrightarrow>
     Log (Recap i) \<in> set out \<longleftrightarrow>
       (fst ie = i \<and> bet_confirmed (snd ie)
        \<and> (\<exists>st. settings (event_streamer (snd ie)) = Some st \<and> make_predictions st = Some True))"
  unfolding report_event_def
  by (auto split: if_splits option.splits)

lemma report_events_recap:
  "report_events ies = Ok out \<Longrightarrow>
     Log (Recap i) \<in> set out \<longleftrightarrow>
       (\<exists>ev st. (i, ev) \<in> set ies \<and> bet_confirmed ev
          \<and> settings (event_streamer ev) = Some st \<and> make_predictions st = Some True)"
proof (induction ies arbitrary: out)
  case Nil
  then show ?case by auto
next
  case (Cons ie ies)
  from Cons.prems obtain o1 o2 where a: "report_event ie = Ok o1"
    and b: "report_events ies = Ok o2" and c: "out = o1 @ o2"
    by (auto simp: bind_res_Ok_iff)
  have "Log (Recap i) \<in> set out \<longleftrightarrow> Log (Recap i) \<in> set o1 \<or> Log (Recap i) \<in> set o2"
    by (simp add: c)
  also have "\<dots> \<longleftrightarrow>
       (fst ie = i \<and> bet_confirmed (snd ie)
        \<and> (\<exists>st. settings (event_streamer (snd ie)) = Some st \<and> make_predictions st = Some True))
       \<or> (\<exists>ev st. (i, ev) \<in> set ies \<and> bet_confirmed ev
          \<and> settings (event_streamer ev) = Some st \<and> make_predictions st = Some True)"
    by (simp only: report_event_recap [OF a] Cons.IH [OF b])
  also have "\<dots> \<longleftrightarrow> (\<exists>ev st. (i, ev) \<in> set (ie # ies) \<and> bet_confirmed ev
          \<and> settings (event_streamer ev) = Some st \<and> make_predictions st = Some True)"
    by (cases ie) auto
  finally show ?case .
qed

lemma report_streamer_recap:
  "report_streamer bp s = Ok out \<Longrightarrow> Log (Recap i) \<notin> set out"
  unfolding report_streamer_def
  by (auto split: if_splits option.splits)

lemma report_streamers_recap:
  "report_streamers bp ss = Ok out \<Longrightarrow> Log (Recap i) \<notin> set out"
proof (induction ss arbitrary: out)
  case Nil
  then show ?case by auto
next
  case (Cons s ss)
  from Cons.prems obtain o1 o2 where a: "report_streamer bp s = Ok o1"
    and b: "report_streamers bp ss = Ok o2" and c: "out = o1 @ o2"
    by (auto simp: bind_res_Ok_iff)
  from report_streamer_recap [OF a] Cons.IH [OF b] c show ?case by simp
qed

lemma print_report_recap:
  assumes "print_report m = Ok rep"
  shows "Log (Recap i) \<in> set rep \<longleftrightarrow>
       (\<exists>ev st. (i, ev) \<in> set (events_predictions m) \<and> bet_confirmed ev
          \<and> settings (event_streamer ev) = Some st \<and> make_predictions st = Some True)"
proof -
  from assms obtain t evs sts where t: "start_datetime m = Some t"
    and e: "report_events (events_predictions m) = Ok evs"
    and s: "report_streamers (base_points m) (streamers m) = Ok sts"
    and r: "rep = [Print, Log (Ending_session (session_id m))]
                @ (case logs_file m of None \<Rightarrow> [] | Some f \<Rightarrow> [Log (Logs_file f)])
                @ [Log Duration]
                @ (if events_predictions m \<noteq> [] then [Print] else [])
                @ evs @ [Print] @ sts"
    unfolding print_report_def by (auto simp: bind_res_Ok_iff split: option.splits)
  have "Log (Recap i) \<in> set rep \<longleftrightarrow> Log (Recap i) \<in> set evs"
    using report_streamers_recap [OF s, of i] by (auto simp: r split: option.splits)
  with report_events_recap [OF e, of i] show ?thesis by simp
qed

lemma leave_one_recap:
  "leave_one env s = Ok r \<Longrightarrow> Log l \<notin> set (snd r)"
  unfolding leave_one_def
  by (auto simp: bind_res_Ok_iff split: option.splits if_splits)

lemma leave_chats_recap:
  "leave_chats env ss = Ok r \<Longrightarrow> Log l \<notin> set (snd r)"
proof (induction ss arbitrary: r)
  case Nil
  then show ?case by auto
next
  case (Cons s ss)
  from Cons.prems obtain r1 r2 where a: "leave_one env s = Ok r1"
    and b: "leave_chats env ss = Ok r2" and c: "r = (fst r1 # fst r2, snd r1 @ snd r2)"
    by (auto simp: bind_res_Ok_iff)
  from leave_one_recap [OF a] Cons.IH [OF b] c show ?case by simp
qed

text \<open>What a run of the handler that reaches \<open>sys.exit\<close> is made of.\<close>

lemma end_handler_Ok:
  assumes "end_handler env m = Ok r"
  obtains lc p p' mw sc ss rep where
    "leave_chats env (streamers m) = Ok lc" "pool m = Some p" "pool_end env p = Ok p'"
    "join_worker (minute_watcher_thread m) = Ok mw"
    "join_worker (sync_campaigns_thread m) = Ok sc"
    "drain_guards (fst lc) = Ok ss"
    "print_report (m\<lparr>streamers := ss, running := False, twitch_running := False,
                    pool := Some p', minute_watcher_thread := mw,
                    sync_campaigns_thread := sc\<rparr>) = Ok rep"
    "r = (0, m\<lparr>streamers := ss, running := False, twitch_running := False,
                    pool := Some p', minute_watcher_thread := mw,
                    sync_campaigns_thread := sc\<rparr>,
          [Log Ctrl_c_detected] @ snd lc @ [Pool_end] @ rep)"
  using assms unfolding end_handler_def
  by (auto simp: bind_res_Ok_iff split: option.splits)

text \<open>
  C7, as the code has it. A run of the handler that reaches \<open>sys.exit\<close> exits with
  status 0, keeps the event store, and its summary has a recap for exactly the events whose
  bet is confirmed and whose streamer has \<open>make_predictions\<close> set, whatever their status.
\<close>

theorem final_recap_of_confirmed_bets:
  "end_handler env m = Ok r \<Longrightarrow>
     fst r = 0
     \<and> events_predictions (fst (snd r)) = events_predictions m
     \<and> (\<forall>i. Log (Recap i) \<in> set (snd (snd r)) \<longleftrightarrow>
           (\<exists>ev st. (i, ev) \<in> set (events_predictions m) \<and> bet_confirmed ev
              \<and> settings (event_streamer ev) = Some st \<and> make_predictions st = Some True))"
proof -
  assume a: "end_handler env m = Ok r"
  from a obtain lc p p' mw sc ss rep where
    lc: "leave_chats env (streamers m) = Ok lc"
    and rep: "print_report (m\<lparr>streamers := ss, running := False, twitch_running := False,
                    pool := Some p', minute_watcher_thread := mw,
                    sync_campaigns_thread := sc\<rparr>) = Ok rep"
    and r: "r = (0, m\<lparr>streamers := ss, running := False, twitch_running := False,
                    pool := Some p', minute_watcher_thread := mw,
                    sync_campaigns_thread := sc\<rparr>,
          [Log Ctrl_c_detected] @ snd lc @ [Pool_end] @ rep)"
    by (rule end_handler_Ok)
  have "\<And>i. Log (Recap i) \<in> set (snd (snd r)) \<longleftrightarrow> Log (Recap i) \<in> set rep"
    using leave_chats_recap [OF lc] by (auto simp: r)
  with print_report_recap [OF rep] show ?thesis by (simp add: r)
qed

text \<open>
  C7 as stated fails: \<open>e1\<close> is resolved and kept in the event store, but no bet was
  confirmed on it and the summary has no recap of it; it has one of \<open>e2\<close>, which is not
  resolved.
\<close>

theorem final_recap_every_resolved_counterexample:
  "(case end_handler ex_env ex_betting of
      Ok r \<Rightarrow> Some (fst r, snd (snd r)) | Raise e \<Rightarrow> None | Hang \<Rightarrow> None)
   = Some (0, [Log Ctrl_c_detected, Pool_end, Print, Log (Ending_session ''session''),
               Log Duration, Print, Log (Bet_settings_line (Some ex_bet)), Log (Recap ''e2''),
               Print, Log (Points_gained ''a'' 50), Log (History_line ''a'')])"
  by code_simp

theorem final_recap_of_confirmed_bets_witness:
  "\<exists>r. end_handler ex_env ex_betting = Ok r \<and> fst r = 0
       \<and> Log (Recap ''e2'') \<in> set (snd (snd r)) \<and> Log (Recap ''e1'') \<notin> set (snd (snd r))"
proof -
  have "case end_handler ex_env ex_betting of Ok r \<Rightarrow> True | Raise e \<Rightarrow> False | Hang \<Rightarrow> False"
    by code_simp
  then obtain r where r: "end_handler ex_env ex_betting = Ok r"
    by (auto split: res.splits)
  note t = final_recap_of_confirmed_bets [OF r]
  have e: "events_predictions ex_betting = [(''e1'', ex_resolved_event), (''e2'', ex_active_event)]"
    by (simp add: ex_betting_def)
  have "Log (Recap ''e2'') \<in> set (snd (snd r))"
    using t by (simp add: e ex_active_event_def ex_streamer_a_def ex_settings_def)
  moreover have "Log (Recap ''e1'') \<notin> set (snd (snd r))"
    using t by (simp add: e ex_active_event_def ex_resolved_event_def)
  ultimately show ?thesis using r t by blast
qed






lemma join_worker_Hang:
  "join_worker w = Hang \<longleftrightarrow> w = Some (Running False)"
proof (cases w)
  case None
  then show ?thesis by (simp add: join_worker_def)
next
  case (Some t)
  then show ?thesis by (cases t) (auto simp: join_worker_def)
qed

lemma join_worker_Ok:
  "join_worker w = Ok w' \<Longrightarrow> w' = None \<or> w' = Some Finished"
proof (cases w)
  case None
  moreover assume "join_worker w = Ok w'"
  ultimately show ?thesis by (simp add: join_worker_def)
next
  case (Some t)
  moreover assume "join_worker w = Ok w'"
  ultimately show ?thesis by (cases t) (auto simp: join_worker_def split: if_splits)
qed

text \<open>
  C6, as the code has it. A worker is joined without a timeout: the join never returns
  exactly when the worker is running and never exits. A run of the handler that reaches
  \<open>sys.exit\<close> had no such worker, and leaves every spawned worker finished.
\<close>

theorem shutdown_joins_without_timeout:
  "(join_worker w = Hang \<longleftrightarrow> w = Some (Running False))
   \<and> (\<forall>r. end_handler env m = Ok r \<longrightarrow>
          minute_watcher_thread m \<noteq> Some (Running False)
          \<and> sync_campaigns_thread m \<noteq> Some (Running False)
          \<and> (minute_watcher_thread (fst (snd r)) = None
               \<or> minute_watcher_thread (fst (snd r)) = Some Finished)
          \<and> (sync_campaigns_thread (fst (snd r)) = None
               \<or> sync_campaigns_thread (fst (snd r)) = Some Finished))"
proof -
  have "minute_watcher_thread m \<noteq> Some (Running False)
          \<and> sync_campaigns_thread m \<noteq> Some (Running False)
          \<and> (minute_watcher_thread (fst (snd r)) = None
               \<or> minute_watcher_thread (fst (snd r)) = Some Finished)
          \<and> (sync_campaigns_thread (fst (snd r)) = None
               \<or> sync_campaigns_thread (fst (snd r)) = Some Finished)"
    if a: "end_handler env m = Ok r" for r
  proof -
    from a obtain lc p p' mw sc ss rep where
      lc: "leave_chats env (streamers m) = Ok lc" and p: "pool m = Some p"
      and p': "pool_end env p = Ok p'"
      and mw: "join_worker (minute_watcher_thread m) = Ok mw"
      and sc: "join_worker (sync_campaigns_thread m) = Ok sc"
      and d: "drain_guards (fst lc) = Ok ss"
      and rep: "print_report (m\<lparr>streamers := ss, running := False, twitch_running := False,
                    pool := Some p', minute_watcher_thread := mw,
                    sync_campaigns_thread := sc\<rparr>) = Ok rep"
      and r: "r = (0, m\<lparr>streamers := ss, running := False, twitch_running := False,
                    pool := Some p', minute_watcher_thread := mw,
                    sync_campaigns_thread := sc\<rparr>,
          [Log Ctrl_c_detected] @ snd lc @ [Pool_end] @ rep)"
      by (rule end_handler_Ok)
    from mw have 1: "minute_watcher_thread m \<noteq> Some (Running False)"
      using join_worker_Hang [of "minute_watcher_thread m"] by auto
    from sc have 2: "sync_campaigns_thread m \<noteq> Some (Running False)"
      using join_worker_Hang [of "sync_campaigns_thread m"] by auto
    from join_worker_Ok [OF mw] join_worker_Ok [OF sc] 1 2 show ?thesis
      by (simp add: r)
  qed
  then have "\<forall>r. end_handler env m = Ok r \<longrightarrow>
          minute_watcher_thread m \<noteq> Some (Running False)
          \<and> sync_campaigns_thread m \<noteq> Some (Running False)
          \<and> (minute_watcher_thread (fst (snd r)) = None
               \<or> minute_watcher_thread (fst (snd r)) = Some Finished)
          \<and> (sync_campaigns_thread (fst (snd r)) = None
               \<or> sync_campaigns_thread (fst (snd r)) = Some Finished)"
    by (intro allI impI)
  with join_worker_Hang [of w] show ?thesis by (rule conjI)
qed

text \<open>
  C6 as stated fails: with a minute watcher that never returns, the handler waits in
  \<open>join()\<close> for ever.
\<close>

theorem shutdown_bounded_join_counterexample:
  "end_handler ex_env ex_watcher_stuck = Hang"
proof -
  have "case end_handler ex_env ex_watcher_stuck of
          Ok r \<Rightarrow> False | Raise e \<Rightarrow> False | Hang \<Rightarrow> True"
    by code_simp
  then show ?thesis by (simp split: res.splits)
qed

theorem shutdown_joins_without_timeout_witness:
  "join_worker (minute_watcher_thread ex_watcher_stuck) = Hang
   \<and> (\<exists>r. end_handler ex_env ex_session = Ok r
          \<and> minute_watcher_thread (fst (snd r)) = Some Finished
          \<and> sync_campaigns_thread (fst (snd r)) = None)"
proof -
  have 1: "join_worker (minute_watcher_thread ex_watcher_stuck) = Hang"
    using shutdown_joins_without_timeout [THEN conjunct1, of "minute_watcher_thread ex_watcher_stuck"]
    by (simp add: ex_watcher_stuck_def)
  have "case end_handler ex_env ex_session of
          Ok r \<Rightarrow> minute_watcher_thread (fst (snd r)) \<noteq> None
                  \<and> sync_campaigns_thread (fst (snd r)) = None
        | Raise e \<Rightarrow> False | Hang \<Rightarrow> False"
    by code_simp
  then obtain r where r: "end_handler ex_env ex_session = Ok r"
    and n: "minute_watcher_thread (fst (snd r)) \<noteq> None"
    and s: "sync_campaigns_thread (fst (snd r)) = None"
    by (auto split: res.splits)
  from shutdown_joins_without_timeout [THEN conjunct2, rule_format, OF r] n
  have "minute_watcher_thread (fst (snd r)) = Some Finished" by simp
  with 1 r s show ?thesis by blast
qed

lemma sweep_append:
  "sweep env reach (xs @ ys) cs =
     bind_res (sweep env reach xs cs) (\<lambda>r.
     bind_res (sweep env reach ys (fst r)) (\<lambda>q. Ok (fst q, snd r @ snd q)))"
proof (induction xs arbitrary: cs)
  case Nil
  show ?case by (cases "sweep env reach ys cs") simp_all
next
  case (Cons i xs)
  show ?case
  proof (cases "i < length cs \<and> \<not> is_reconneting (cs ! i) \<and> elapsed_last_ping (cs ! i) > 10 \<and> reach i")
    case True
    show ?thesis
    proof (cases "handle_reconnection env i cs")
      case (Ok cs')
      show ?thesis
      proof (cases "sweep env reach xs cs'")
        case (Ok r)
        then show ?thesis
          using True \<open>handle_reconnection env i cs = Ok cs'\<close> Cons.IH [of cs']
          by (cases "sweep env reach ys (fst r)") simp_all
      qed (use True \<open>handle_reconnection env i cs = Ok cs'\<close> Cons.IH [of cs'] in simp_all)
    qed (use True in simp_all)
  next
    case False
    then show ?thesis using Cons.IH [of cs] by auto
  qed
qed

lemma sweep_trace_index:
  "sweep env reach js cs = Ok r \<Longrightarrow> Handle_reconnection i \<in> set (snd r) \<Longrightarrow> i \<in> set js"
proof (induction js arbitrary: cs r)
  case Nil
  then show ?case by auto
next
  case (Cons j js)
  show ?case
  proof (cases "\<not> is_reconneting (cs ! j) \<and> elapsed_last_ping (cs ! j) > 10 \<and> reach j")
    case True
    with Cons.prems(1) obtain cs' q where "sweep env reach js cs' = Ok q"
      and "r = (fst q, [Log (Last_ping_reconnecting j), Handle_reconnection j] @ snd q)"
      by (auto simp: bind_res_Ok_iff split: if_splits)
    with Cons.IH [of cs' q] Cons.prems(2) show ?thesis by auto
  next
    case False
    with Cons.prems(1) have "sweep env reach js cs = Ok r"
      by (auto split: if_splits)
    with Cons.IH [of cs r] Cons.prems(2) show ?thesis by auto
  qed
qed

lemma sweep_head:
  assumes "sweep env reach (i # js) cs = Ok r" and "i \<notin> set js"
  shows "i < length cs
     \<and> (Handle_reconnection i \<in> set (snd r) \<longleftrightarrow>
          \<not> is_reconneting (cs ! i) \<and> elapsed_last_ping (cs ! i) > 10 \<and> reach i)"
proof (cases "\<not> is_reconneting (cs ! i) \<and> elapsed_last_ping (cs ! i) > 10 \<and> reach i")
  case True
  with assms(1) obtain cs' q where "i < length cs"
    and "r = (fst q, [Log (Last_ping_reconnecting i), Handle_reconnection i] @ snd q)"
    by (auto simp: bind_res_Ok_iff split: if_splits)
  with True show ?thesis by simp
next
  case False
  with assms(1) have l: "i < length cs" and s: "sweep env reach js cs = Ok r"
    by (auto split: if_splits)
  from sweep_trace_index [OF s] assms(2) have "Handle_reconnection i \<notin> set (snd r)" by blast
  with False l show ?thesis by blast
qed

lemma sweep_upto:
  assumes "sweep env reach [0..<n] cs = Ok r" and "i < n"
  shows "\<exists>q. sweep env reach [0..<i] cs = Ok q \<and> i < length (fst q)
           \<and> (Handle_reconnection i \<in> set (snd r) \<longleftrightarrow>
                \<not> is_reconneting (fst q ! i) \<and> elapsed_last_ping (fst q ! i) > 10 \<and> reach i)"
proof -
  from assms(2) have "[0..<n] = [0..<i] @ (i # [Suc i..<n])"
    by (metis le_add1 less_imp_add_positive upt_add_eq_append upt_conv_Cons add_0)
  with assms(1) have "bind_res (sweep env reach [0..<i] cs) (\<lambda>q.
     bind_res (sweep env reach (i # [Suc i..<n]) (fst q)) (\<lambda>t. Ok (fst t, snd q @ snd t))) = Ok r"
    by (simp only: sweep_append)
  then obtain q t where q: "sweep env reach [0..<i] cs = Ok q"
    and t: "sweep env reach (i # [Suc i..<n]) (fst q) = Ok t"
    and r: "r = (fst t, snd q @ snd t)"
    by (auto simp: bind_res_Ok_iff)
  have "i \<notin> set [Suc i..<n]" by simp
  from sweep_head [OF t this] have l: "i < length (fst q)"
    and h: "Handle_reconnection i \<in> set (snd t) \<longleftrightarrow>
          \<not> is_reconneting (fst q ! i) \<and> elapsed_last_ping (fst q ! i) > 10 \<and> reach i"
    by blast+
  from sweep_trace_index [OF q, of i] have "Handle_reconnection i \<notin> set (snd q)" by auto
  then have "Handle_reconnection i \<in> set (snd r) \<longleftrightarrow> Handle_reconnection i \<in> set (snd t)"
    by (simp add: r)
  with q l h show ?thesis by blast
qed

lemma sweep_frame:
  assumes "local_reconnection env"
  shows "sweep env reach js cs = Ok q \<Longrightarrow> i \<notin> set js \<Longrightarrow>
           length (fst q) = length cs \<and> fst q ! i = cs ! i"
proof (induction js arbitrary: cs q)
  case Nil
  then show ?case by auto
next
  case (Cons j js)
  show ?case
  proof (cases "\<not> is_reconneting (cs ! j) \<and> elapsed_last_ping (cs ! j) > 10 \<and> reach j")
    case True
    with Cons.prems(1) obtain cs' t where h: "handle_reconnection env j cs = Ok cs'"
      and t: "sweep env reach js cs' = Ok t"
      and q: "q = (fst t, [Log (Last_ping_reconnecting j), Handle_reconnection j] @ snd t)"
      by (auto simp: bind_res_Ok_iff split: if_splits)
    from assms h have "length cs' = length cs" and "\<forall>k. k \<noteq> j \<longrightarrow> cs' ! k = cs ! k"
      unfolding local_reconnection_def by blast+
    moreover from Cons.prems(2) have "i \<noteq> j" and "i \<notin> set js" by auto
    moreover from Cons.IH [OF t \<open>i \<notin> set js\<close>]
    have "length (fst t) = length cs' \<and> fst t ! i = cs' ! i" .
    ultimately show ?thesis by (simp add: q)
  next
    case False
    with Cons.prems(1) have "sweep env reach js cs = Ok q"
      by (auto split: if_splits)
    with Cons.IH [of cs q] Cons.prems(2) show ?thesis by auto
  qed
qed

text \<open>
  C1. In a pass of the liveness sweep, the reconnection of the connection at index \<open>i\<close>
  is triggered if and only if, when the sweep reaches it, the connection is not
  reconnecting, its last ping is more than ten minutes old and the network is reachable.
  The connection is read from the pool as the reconnections of the lower indices left it;
  when a reconnection changes only the connection it is called on, it is the connection
  the pool had when the pass began.
\<close>

theorem sweep_reconnects_iff_stale_and_reachable:
  assumes "liveness_sweep env reach p = Ok r" and "i < length (ws p)"
  shows "(\<exists>q. sweep env reach [0..<i] (ws p) = Ok q \<and> i < length (fst q)
            \<and> (Handle_reconnection i \<in> set (snd r) \<longleftrightarrow>
                 \<not> is_reconneting (fst q ! i) \<and> elapsed_last_ping (fst q ! i) > 10 \<and> reach i))
         \<and> (local_reconnection env \<longrightarrow>
              (Handle_reconnection i \<in> set (snd r) \<longleftrightarrow>
                 \<not> is_reconneting (ws p ! i) \<and> elapsed_last_ping (ws p ! i) > 10 \<and> reach i))"
proof -
  from assms(1) obtain t where t: "sweep env reach [0..<length (ws p)] (ws p) = Ok t"
    and r: "r = (p\<lparr>ws := fst t\<rparr>, snd t)"
    unfolding liveness_sweep_def by (auto simp: bind_res_Ok_iff)
  from sweep_upto [OF t assms(2)] obtain q where q: "sweep env reach [0..<i] (ws p) = Ok q"
    and l: "i < length (fst q)"
    and h: "Handle_reconnection i \<in> set (snd t) \<longleftrightarrow>
                \<not> is_reconneting (fst q ! i) \<and> elapsed_last_ping (fst q ! i) > 10 \<and> reach i"
    by blast
  have s: "snd r = snd t" by (simp add: r)
  have "fst q ! i = ws p ! i" if "local_reconnection env"
    using sweep_frame [OF that q, of i] by simp
  with q l h s show ?thesis by auto
qed

lemma ex_env_local: "local_reconnection ex_env"
  by (auto simp: local_reconnection_def ex_env_def)

theorem sweep_reconnects_iff_stale_and_reachable_witness:
  "\<exists>r. liveness_sweep ex_env (\<lambda>i. i \<noteq> 3) ex_pool = Ok r
       \<and> Handle_reconnection 0 \<in> set (snd r)
       \<and> Handle_reconnection 1 \<notin> set (snd r)
       \<and> Handle_reconnection 2 \<notin> set (snd r)
       \<and> Handle_reconnection 3 \<notin> set (snd r)"
proof -
  have "case liveness_sweep ex_env (\<lambda>i. i \<noteq> 3) ex_pool of
          Ok r \<Rightarrow> True | Raise e \<Rightarrow> False | Hang \<Rightarrow> False"
    by code_simp
  then obtain r where r: "liveness_sweep ex_env (\<lambda>i. i \<noteq> 3) ex_pool = Ok r"
    by (auto split: res.splits)
  have l: "length (ws ex_pool) = 4" by (simp add: ex_pool_def)
  have "Handle_reconnection 0 \<in> set (snd r)"
    using sweep_reconnects_iff_stale_and_reachable [OF r, of 0] ex_env_local l
    by (simp add: ex_pool_def)
  moreover have "Handle_reconnection 1 \<notin> set (snd r)"
    using sweep_reconnects_iff_stale_and_reachable [OF r, of 1] ex_env_local l
    by (simp add: ex_pool_def)
  moreover have "Handle_reconnection 2 \<notin> set (snd r)"
    using sweep_reconnects_iff_stale_and_reachable [OF r, of 2] ex_env_local l
    by (simp add: ex_pool_def)
  moreover have "Handle_reconnection 3 \<notin> set (snd r)"
    using sweep_reconnects_iff_stale_and_reachable [OF r, of 3] ex_env_local l
    by (simp add: ex_pool_def)
  ultimately show ?thesis using r by blast
qed

lemma init_processed_registered [simp]:
  "init_processed (open_chat (apply_defaults env s)) = init_processed s"
  by (simp add: open_chat_def apply_defaults_def)

lemma register_one_flags:
  "register_one env u d = Ok r \<Longrightarrow>
     map_option init_processed (map_of (fst r) k) = map_option init_processed (map_of d k)"
  unfolding register_one_def
  by (auto simp: update_conv' split: option.splits if_splits res.splits)

lemma register_one_not_found:
  "register_one env u d = Ok r \<Longrightarrow> not_found env (fst r) k = not_found env d k"
proof -
  assume "register_one env u d = Ok r"
  from register_one_flags [OF this, of k] show ?thesis
    unfolding not_found_def by (auto split: option.splits)
qed

lemma register_one_missing:
  assumes "not_found env d u"
  shows "\<exists>tr. register_one env u d = Ok (d, False, tr) \<and> Log (Streamer_does_not_exist u) \<in> set tr"
  using assms unfolding not_found_def register_one_def
  by (auto split: option.splits)

lemma register_one_present:
  assumes "register_one env u d = Ok r" and "\<not> not_found env d u"
  shows "fst (snd r) \<and> (\<forall>k. Log (Streamer_does_not_exist k) \<notin> set (snd (snd r)))"
  using assms unfolding not_found_def register_one_def
  by (auto split: option.splits if_splits res.splits)

lemma register_one_log:
  assumes "register_one env u d = Ok r"
  shows "Log (Streamer_does_not_exist k) \<in> set (snd (snd r)) \<longleftrightarrow> k = u \<and> not_found env d u"
proof (cases "not_found env d u")
  case True
  from register_one_missing [OF True] assms True show ?thesis
    unfolding not_found_def register_one_def
    by (auto split: option.splits if_splits res.splits)
next
  case False
  from register_one_present [OF assms False] False show ?thesis by blast
qed

lemma register_kept:
  "register env names d = Ok r \<Longrightarrow>
     fst (snd r) = filter (\<lambda>u. \<not> not_found env d u) names
     \<and> (\<forall>k. Log (Streamer_does_not_exist k) \<in> set (snd (snd r))
            \<longleftrightarrow> k \<in> set names \<and> not_found env d k)"
proof (induction names arbitrary: d r)
  case Nil
  then show ?case by auto
next
  case (Cons u us)
  from Cons.prems obtain r1 r2 where r1: "register_one env u d = Ok r1"
    and r2: "register env us (fst r1) = Ok r2"
    and r: "r = (fst r2, (if fst (snd r1) then [u] else []) @ fst (snd r2),
                 snd (snd r1) @ snd (snd r2))"
    by (auto simp: bind_res_Ok_iff)
  have nf: "\<And>k. not_found env (fst r1) k = not_found env d k"
    by (rule register_one_not_found [OF r1])
  from Cons.IH [OF r2] nf have ih1: "fst (snd r2) = filter (\<lambda>u. \<not> not_found env d u) us"
    and ih2: "\<forall>k. Log (Streamer_does_not_exist k) \<in> set (snd (snd r2))
            \<longleftrightarrow> k \<in> set us \<and> not_found env d k"
    by simp_all
  have b: "fst (snd r1) \<longleftrightarrow> \<not> not_found env d u"
  proof (cases "not_found env d u")
    case True
    from register_one_missing [OF True] r1 True show ?thesis by auto
  next
    case False
    from register_one_present [OF r1 False] False show ?thesis by simp
  qed
  from b ih1 have "fst (snd r) = filter (\<lambda>u. \<not> not_found env d u) (u # us)"
    by (simp add: r)
  moreover have "\<forall>k. Log (Streamer_does_not_exist k) \<in> set (snd (snd r))
            \<longleftrightarrow> k \<in> set (u # us) \<and> not_found env d k"
    using register_one_log [OF r1] ih2 by (auto simp: r)
  ultimately show ?case by blast
qed

lemma registered_Cons:
  "registered (register env (u # us) d) =
     bind_res (register_one env u d) (\<lambda>r1.
     bind_res (registered (register env us (fst r1))) (\<lambda>q.
       Ok (fst q, (if fst (snd r1) then [u] else []) @ snd q)))"
proof (cases "register_one env u d")
  case (Ok r1)
  then show ?thesis
    by (cases "register env us (fst r1)") (simp_all add: registered_def)
qed (simp_all add: registered_def)

lemma register_unaffected:
  "registered (register env names d)
     = registered (register env (filter (\<lambda>u. \<not> not_found env d u) names) d)"
proof (induction names arbitrary: d)
  case Nil
  show ?case by simp
next
  case (Cons u us)
  show ?case
  proof (cases "not_found env d u")
    case True
    from register_one_missing [OF True] obtain tr
      where tr: "register_one env u d = Ok (d, False, tr)" by blast
    have "registered (register env (u # us) d)
            = bind_res (registered (register env us d)) (\<lambda>q. Ok (fst q, snd q))"
      unfolding registered_Cons by (simp add: tr)
    also have "\<dots> = registered (register env us d)"
      by (cases "registered (register env us d)") simp_all
    finally have "registered (register env (u # us) d) = registered (register env us d)" .
    moreover from True
    have "filter (\<lambda>u. \<not> not_found env d u) (u # us) = filter (\<lambda>u. \<not> not_found env d u) us"
      by simp
    ultimately show ?thesis using Cons.IH [of d] by (simp only:)
  next
    case False
    then have f: "filter (\<lambda>u. \<not> not_found env d u) (u # us)
                    = u # filter (\<lambda>u. \<not> not_found env d u) us"
      by simp
    show ?thesis
    proof (cases "register_one env u d")
      case (Ok r1)
      have "\<And>k. not_found env (fst r1) k = not_found env d k"
        by (rule register_one_not_found [OF Ok])
      with Cons.IH [of "fst r1"] have
        "registered (register env us (fst r1))
           = registered (register env (filter (\<lambda>u. \<not> not_found env d u) us) (fst r1))"
        by simp
      then show ?thesis unfolding f registered_Cons by (simp add: Ok)
    next
      case (Raise e)
      show ?thesis unfolding f registered_Cons by (simp add: Raise)
    next
      case Hang
      show ?thesis unfolding f registered_Cons by (simp add: Hang)
    qed
  qed
qed

lemma register_one_returns:
  assumes "map_of d u \<noteq> None"
    and "(\<exists>c. get_channel_id env u = Ok c)
           \<or> get_channel_id env u = Raise StreamerDoesNotExistException"
  shows "\<exists>r. register_one env u d = Ok r"
  using assms unfolding register_one_def by (auto split: option.splits)

lemma register_returns:
  assumes "\<forall>u\<in>set names. map_of d u \<noteq> None
             \<and> ((\<exists>c. get_channel_id env u = Ok c)
                  \<or> get_channel_id env u = Raise StreamerDoesNotExistException)"
  shows "\<exists>r. register env names d = Ok r"
  using assms
proof (induction names arbitrary: d)
  case Nil
  show ?case by simp
next
  case (Cons u us)
  from Cons.prems register_one_returns [of d u env] obtain r1
    where r1: "register_one env u d = Ok r1" by auto
  have "\<And>k. map_of (fst r1) k \<noteq> None \<longleftrightarrow> map_of d k \<noteq> None"
    using register_one_flags [OF r1] by (metis option.map_disc_iff)
  with Cons.prems have "\<forall>u\<in>set us. map_of (fst r1) u \<noteq> None
             \<and> ((\<exists>c. get_channel_id env u = Ok c)
                  \<or> get_channel_id env u = Raise StreamerDoesNotExistException)"
    by simp
  from Cons.IH [OF this] obtain r2 where "register env us (fst r1) = Ok r2" by blast
  with r1 show ?case by simp
qed

text \<open>
  C5. When every name of the list is in the dictionary and \<open>get_channel_id\<close> either
  answers or raises \<open>StreamerDoesNotExistException\<close>, the registration loop returns:
  the array is the list of names without those whose lookup failed, in the same order; a
  line is logged for exactly the names whose lookup failed; and the dictionary and the
  array are those of the loop run without these names.
\<close>

theorem registration_skips_unknown_streamers:
  assumes "\<forall>u\<in>set names. map_of d u \<noteq> None
             \<and> ((\<exists>c. get_channel_id env u = Ok c)
                  \<or> get_channel_id env u = Raise StreamerDoesNotExistException)"
  shows "\<exists>r. register env names d = Ok r
           \<and> fst (snd r) = filter (\<lambda>u. \<not> not_found env d u) names
           \<and> (\<forall>k. Log (Streamer_does_not_exist k) \<in> set (snd (snd r))
                  \<longleftrightarrow> k \<in> set names \<and> not_found env d k)
           \<and> registered (register env (filter (\<lambda>u. \<not> not_found env d u) names) d)
                = Ok (fst r, fst (snd r))"
proof -
  from register_returns [OF assms] obtain r where r: "register env names d = Ok r" by blast
  from register_unaffected [of env names d] r
  have "registered (register env (filter (\<lambda>u. \<not> not_found env d u) names) d)
                = Ok (fst r, fst (snd r))"
    by (simp add: registered_def)
  with r register_kept [OF r] show ?thesis by blast
qed

theorem registration_skips_unknown_streamers_witness:
  "\<exists>r. register ex_env [''a'', ''ghost'', ''b''] ex_dict = Ok r
       \<and> fst (snd r) = [''a'', ''b'']
       \<and> Log (Streamer_does_not_exist ''ghost'') \<in> set (snd (snd r))
       \<and> Log (Streamer_does_not_exist ''b'') \<notin> set (snd (snd r))
       \<and> registered (register ex_env [''a'', ''b''] ex_dict) = Ok (fst r, fst (snd r))"
proof -
  have h: "\<forall>u\<in>set [''a'', ''ghost'', ''b'']. map_of ex_dict u \<noteq> None
             \<and> ((\<exists>c. get_channel_id ex_env u = Ok c)
                  \<or> get_channel_id ex_env u = Raise StreamerDoesNotExistException)"
    by (simp add: ex_dict_def ex_env_def)
  have a: "\<not> not_found ex_env ex_dict ''a''"
    by (simp add: not_found_def ex_dict_def ex_env_def)
  have b: "\<not> not_found ex_env ex_dict ''b''"
    by (simp add: not_found_def ex_dict_def ex_env_def)
  have g: "not_found ex_env ex_dict ''ghost''"
    by (simp add: not_found_def ex_dict_def ex_env_def ex_new_streamer_def)
  have f: "filter (\<lambda>u. \<not> not_found ex_env ex_dict u) [''a'', ''ghost'', ''b''] = [''a'', ''b'']"
    using a b g by simp
  from registration_skips_unknown_streamers [OF h] obtain r
    where r: "register ex_env [''a'', ''ghost'', ''b''] ex_dict = Ok r"
      and k: "fst (snd r) = filter (\<lambda>u. \<not> not_found ex_env ex_dict u) [''a'', ''ghost'', ''b'']"
      and l: "\<forall>k. Log (Streamer_does_not_exist k) \<in> set (snd (snd r))
                  \<longleftrightarrow> k \<in> set [''a'', ''ghost'', ''b''] \<and> not_found ex_env ex_dict k"
      and q: "registered (register ex_env
                 (filter (\<lambda>u. \<not> not_found ex_env ex_dict u) [''a'', ''ghost'', ''b'']) ex_dict)
                = Ok (fst r, fst (snd r))"
    by blast
  from k f have k': "fst (snd r) = [''a'', ''b'']" by (simp only:)
  from q f have q': "registered (register ex_env [''a'', ''b''] ex_dict) = Ok (fst r, fst (snd r))"
    by (simp only:)
  from l g have l1: "Log (Streamer_does_not_exist ''ghost'') \<in> set (snd (snd r))" by simp
  from l b have l2: "Log (Streamer_does_not_exist ''b'') \<notin> set (snd (snd r))" by simp
  from r k' l1 l2 q' show ?thesis by blast
qed

lemma populate_one_processed:
  "init_processed s \<Longrightarrow> populate_one env s = Ok s"
  by (simp add: populate_one_def)

lemma populate_one_new:
  assumes "\<not> init_processed s" and "populate_one env s = Ok s'"
  shows "initialised s'
     \<and> viewer_is_mod s'
         = viewer_is_mod (viewer_is_mod_call env
             (check_streamer_online env (load_channel_points_context env s)))"
  using assms unfolding populate_one_def disable_predictions_def initialised_def
  by (auto simp: bind_res_Ok_iff split: if_splits option.splits)

lemma populate_keeps_processed:
  "populate env keys d = Ok d' \<Longrightarrow> map_of d u = Some s \<Longrightarrow> init_processed s
     \<Longrightarrow> map_of d' u = Some s"
proof (induction keys arbitrary: d)
  case Nil
  then show ?case by simp
next
  case (Cons j keys)
  from Cons.prems(1) obtain sj sj' where sj: "map_of d j = Some sj"
    and p1: "populate_one env sj = Ok sj'"
    and rest: "populate env keys (AList.update j sj' d) = Ok d'"
    by (auto simp: bind_res_Ok_iff split: option.splits)
  have "map_of (AList.update j sj' d) u = Some s"
  proof (cases "j = u")
    case True
    with sj Cons.prems(2) have "sj = s" by simp
    with p1 Cons.prems(3) have "sj' = s" by (simp add: populate_one_processed)
    with True show ?thesis by (simp add: update_conv')
  next
    case False
    with Cons.prems(2) show ?thesis by (simp add: update_conv')
  qed
  from Cons.IH [OF rest this Cons.prems(3)] show ?case .
qed

lemma populate_new:
  "populate env keys d = Ok d' \<Longrightarrow> u \<in> set keys \<Longrightarrow> map_of d u = Some s
     \<Longrightarrow> \<not> init_processed s
     \<Longrightarrow> \<exists>s'. map_of d' u = Some s' \<and> initialised s'
           \<and> viewer_is_mod s'
               = viewer_is_mod (viewer_is_mod_call env
                   (check_streamer_online env (load_channel_points_context env s)))"
proof (induction keys arbitrary: d)
  case Nil
  then show ?case by simp
next
  case (Cons j keys)
  from Cons.prems(1) obtain sj sj' where sj: "map_of d j = Some sj"
    and p1: "populate_one env sj = Ok sj'"
    and rest: "populate env keys (AList.update j sj' d) = Ok d'"
    by (auto simp: bind_res_Ok_iff split: option.splits)
  show ?case
  proof (cases "j = u")
    case True
    with sj Cons.prems(3) have "sj = s" by simp
    with p1 Cons.prems(4) have g: "initialised sj'"
      and v: "viewer_is_mod sj'
               = viewer_is_mod (viewer_is_mod_call env
                   (check_streamer_online env (load_channel_points_context env s)))"
      using populate_one_new [of s env sj'] by simp_all
    from True have m: "map_of (AList.update j sj' d) u = Some sj'" by (simp add: update_conv')
    from g have "init_processed sj'" by (simp add: initialised_def)
    from populate_keeps_processed [OF rest m this] g v show ?thesis by blast
  next
    case False
    with Cons.prems(2) have u: "u \<in> set keys" by simp
    from False Cons.prems(3) have "map_of (AList.update j sj' d) u = Some s"
      by (simp add: update_conv')
    from Cons.IH [OF rest u this Cons.prems(4)] show ?thesis .
  qed
qed

lemma populate_keys:
  "populate env keys d = Ok d' \<Longrightarrow> map_of d' u = None \<longleftrightarrow> map_of d u = None"
proof (induction keys arbitrary: d)
  case Nil
  then show ?case by simp
next
  case (Cons j keys)
  from Cons.prems(1) obtain sj sj' where sj: "map_of d j = Some sj"
    and rest: "populate env keys (AList.update j sj' d) = Ok d'"
    by (auto simp: bind_res_Ok_iff split: option.splits)
  from Cons.IH [OF rest] sj show ?case by (auto simp: update_conv')
qed

lemma register_flags:
  "register env names d = Ok r \<Longrightarrow>
     map_option init_processed (map_of (fst r) k) = map_option init_processed (map_of d k)"
proof (induction names arbitrary: d r)
  case Nil
  then show ?case by auto
next
  case (Cons u us)
  from Cons.prems obtain r1 r2 where r1: "register_one env u d = Ok r1"
    and r2: "register env us (fst r1) = Ok r2" and r: "fst r = fst r2"
    by (auto simp: bind_res_Ok_iff)
  from Cons.IH [OF r2] register_one_flags [OF r1, of k] r show ?case by simp
qed

lemma register_unprocessed:
  assumes "register env names d = Ok r" and "unprocessed d"
  shows "unprocessed (fst r)"
  unfolding unprocessed_def
proof (intro allI impI)
  fix k s assume "map_of (fst r) k = Some s"
  with register_flags [OF assms(1), of k] obtain s0 where "map_of d k = Some s0"
    and "init_processed s0 = init_processed s" by (cases "map_of d k") auto
  with assms(2) show "\<not> init_processed s" by (auto simp: unprocessed_def)
qed

lemma unprocessed_update:
  "unprocessed d \<Longrightarrow> \<not> init_processed s \<Longrightarrow> unprocessed (AList.update k s d)"
  by (auto simp: unprocessed_def update_conv')

lemma unprocessed_delete:
  "unprocessed d \<Longrightarrow> unprocessed (AList.delete k d)"
  by (auto simp: unprocessed_def delete_conv')

lemma load_current_unprocessed:
  "\<forall>s\<in>set ss. \<not> init_processed s \<Longrightarrow> unprocessed (snd nd)
     \<Longrightarrow> unprocessed (snd (load_current bl ss nd))"
proof (induction ss arbitrary: nd)
  case Nil
  then show ?case by simp
next
  case (Cons s ss)
  then show ?case by (simp add: unprocessed_update)
qed

lemma load_static_unprocessed:
  assumes "fresh_constructor env"
  shows "\<forall>s. Instance s \<in> set as \<longrightarrow> \<not> init_processed s \<Longrightarrow> unprocessed (fst (snd st))
     \<Longrightarrow> unprocessed (fst (snd (load_static env bl as st)))"
proof (induction as arbitrary: st)
  case Nil
  then show ?case by simp
next
  case (Cons a as)
  define st' where "st' =
       (if map_of (fst (snd st)) (arg_username a) = None \<and> arg_username a \<notin> set bl
        then (fst st @ [arg_username a],
              AList.update (arg_username a) (arg_streamer env a) (fst (snd st)),
              Some (arg_username a))
        else (fst st, fst (snd st), Some (arg_username a)))"
  have "\<not> init_processed (arg_streamer env a)"
  proof (cases a)
    case (Name n)
    from assms have "\<not> init_processed (new_streamer env n None)"
      unfolding fresh_constructor_def by blast
    with Name show ?thesis by (simp add: arg_streamer_def)
  next
    case (Instance s)
    then have "Instance s \<in> set (a # as)" by simp
    with Cons.prems(1) have "\<not> init_processed s" by blast
    with Instance show ?thesis by (simp add: arg_streamer_def)
  qed
  with Cons.prems(2)
  have "unprocessed (AList.update (arg_username a) (arg_streamer env a) (fst (snd st)))"
    by (rule unprocessed_update)
  with Cons.prems(2) have u: "unprocessed (fst (snd st'))"
    by (simp add: st'_def)
  from Cons.prems(1) have i: "\<forall>s. Instance s \<in> set as \<longrightarrow> \<not> init_processed s"
    by (blast intro: list.set_intros)
  have "load_static env bl (a # as) st = load_static env bl as st'"
    by (simp add: st'_def)
  with Cons.IH [OF i u] show ?case by (simp only:)
qed

lemma load_json_unprocessed:
  assumes "fresh_constructor env"
  shows "load_json env bl es st = Ok r \<Longrightarrow> unprocessed (fst (snd st))
     \<Longrightarrow> unprocessed (fst (snd r))"
proof (induction es arbitrary: st)
  case Nil
  then show ?case by simp
next
  case (Cons e es)
  from Cons.prems(1) obtain u0 where u0: "fst (snd (snd st)) = Some u0"
    by (auto split: option.splits)
  show ?case
  proof (cases "u0 \<in> set bl")
    case True
    with Cons.prems u0 Cons.IH [of st] show ?thesis by simp
  next
    case False
    show ?thesis
    proof (cases "map_of (fst (snd st)) (fst e)")
      case None
      from assms have "\<not> init_processed (new_streamer env (fst e) (snd e))"
        by (simp add: fresh_constructor_def)
      with Cons.prems(2)
      have "unprocessed (AList.update (fst e) (new_streamer env (fst e) (snd e)) (fst (snd st)))"
        by (rule unprocessed_update)
      with Cons.prems(1) u0 False None
        Cons.IH [of "(fst st @ [fst e],
                    AList.update (fst e) (new_streamer env (fst e) (snd e)) (fst (snd st)),
                    Some (fst e), snd (snd (snd st)) @ [fst e])"]
      show ?thesis by simp
    next
      case (Some old)
      with Cons.prems(2) have "\<not> init_processed old" by (auto simp: unprocessed_def)
      then have "\<not> init_processed (old\<lparr>settings := settings (new_streamer env (fst e) (snd e))\<rparr>)"
        by simp
      with Cons.prems(2)
      have "unprocessed (AList.update (fst e)
                      (old\<lparr>settings := settings (new_streamer env (fst e) (snd e))\<rparr>)
                      (fst (snd st)))"
        by (rule unprocessed_update)
      with Cons.prems(1) u0 False Some
        Cons.IH [of "(fst st,
                    AList.update (fst e)
                      (old\<lparr>settings := settings (new_streamer env (fst e) (snd e))\<rparr>)
                      (fst (snd st)),
                    Some (fst e), snd (snd (snd st)) @ [fst e])"]
      show ?thesis by simp
    qed
  qed
qed

lemma load_followers_unprocessed:
  assumes "fresh_constructor env"
  shows "unprocessed (snd nd) \<Longrightarrow> unprocessed (snd (load_followers env us nd))"
proof (induction us arbitrary: nd)
  case Nil
  then show ?case by simp
next
  case (Cons u us)
  from assms have "\<not> init_processed (new_streamer env (str_strip (str_lower u)) None)"
    by (simp add: fresh_constructor_def)
  with Cons.prems
  have "unprocessed (AList.update u (new_streamer env (str_strip (str_lower u)) None) (snd nd))"
    by (rule unprocessed_update)
  with Cons.prems Cons.IH show ?case by simp
qed

lemma remove_missing_unprocessed:
  "remove_missing names d us reason = Ok r \<Longrightarrow> unprocessed d \<Longrightarrow> unprocessed (fst (snd r))"
proof (induction us arbitrary: names d r)
  case Nil
  then show ?case by auto
next
  case (Cons u us)
  show ?case
  proof (cases "u \<in> set names")
    case True
    with Cons.prems(1) obtain q
      where q: "remove_missing (remove1 u names) (AList.delete u d) us reason = Ok q"
        and r: "fst (snd r) = fst (snd q)"
      by (auto simp: bind_res_Ok_iff split: option.splits)
    from Cons.IH [OF q unprocessed_delete [OF Cons.prems(2)]] r show ?thesis by simp
  next
    case False
    with Cons.prems Cons.IH [of names d r] show ?thesis by simp
  qed
qed

lemma merge_json_unprocessed:
  assumes "fresh_constructor env" and "merge_json env bl json src st = Ok r"
    and "unprocessed (fst (snd st))"
  shows "unprocessed (fst (snd r))"
proof (cases json)
  case None
  with assms(2,3) show ?thesis by (auto simp: merge_json_def)
next
  case (Some js)
  with assms(2) obtain l q
    where l: "load_json env bl js (fst st, fst (snd st), snd (snd st), []) = Ok l"
      and q: "(if src \<noteq> [] then
               remove_missing (fst l) (fst (snd l))
                 (filter (\<lambda>x. x \<notin> set (snd (snd (snd l)))) src) ''Not present in JSON file''
             else Ok (fst l, fst (snd l), [])) = Ok q"
      and r: "fst (snd r) = fst (snd q)"
    by (auto simp: merge_json_def bind_res_Ok_iff)
  from load_json_unprocessed [OF assms(1) l] assms(3) have "unprocessed (fst (snd l))" by simp
  with q remove_missing_unprocessed have "unprocessed (fst (snd q))"
    by (cases "src = []") auto
  with r show ?thesis by simp
qed

lemma merge_followers_unprocessed:
  assumes "fresh_constructor env" and "merge_followers env bl fl fd src nd = Ok r"
    and "unprocessed (snd nd)"
  shows "unprocessed (fst (snd r))"
proof (cases fl)
  case False
  with assms(2,3) show ?thesis by (auto simp: merge_followers_def)
next
  case True
  from load_followers_unprocessed [OF assms(1) assms(3)]
  have u: "unprocessed (snd (load_followers env (filter (\<lambda>x. x \<notin> set bl) fd) nd))" .
  from True assms(2) obtain q
    where q: "(if src \<noteq> [] then
             remove_missing
               (fst (load_followers env (filter (\<lambda>x. x \<notin> set bl) fd) nd))
               (snd (load_followers env (filter (\<lambda>x. x \<notin> set bl) fd) nd))
               (filter (\<lambda>x. x \<notin> set (filter (\<lambda>x. x \<notin> set bl) fd)) src)
               ''User was unfollowed''
           else Ok (fst (load_followers env (filter (\<lambda>x. x \<notin> set bl) fd) nd),
                    snd (load_followers env (filter (\<lambda>x. x \<notin> set bl) fd) nd), [])) = Ok q"
      and r: "fst (snd r) = fst (snd q)"
    by (auto simp: merge_followers_def bind_res_Ok_iff)
  from q u remove_missing_unprocessed have "unprocessed (fst (snd q))"
    by (cases "src = []") auto
  with r show ?thesis by simp
qed

lemma merge_sources_unprocessed:
  assumes "fresh_constructor env"
    and "\<forall>s. Instance s \<in> set args \<longrightarrow> \<not> init_processed s"
    and "\<forall>s\<in>set (streamers m). \<not> init_processed s"
    and "merge_sources env m args bl json fl fd = Ok r"
  shows "unprocessed (fst (snd r))"
proof -
  from assms(4) obtain j f
    where j: "merge_json env bl json (sources_json_file m)
          (load_static env bl args
             (fst (load_current bl (streamers m) ([], [])),
              snd (load_current bl (streamers m) ([], [])), None)) = Ok j"
      and f: "merge_followers env bl fl fd (sources_followers m) (fst j, fst (snd j)) = Ok f"
      and r: "fst (snd r) = fst (snd f)"
    by (auto simp: merge_sources_def bind_res_Ok_iff)
  have "unprocessed (snd (load_current bl (streamers m) ([], [])))"
    by (rule load_current_unprocessed [OF assms(3)]) (simp add: unprocessed_def)
  then have "unprocessed (fst (snd (load_static env bl args
             (fst (load_current bl (streamers m) ([], [])),
              snd (load_current bl (streamers m) ([], [])), None))))"
    by (intro load_static_unprocessed [OF assms(1) assms(2)]) simp
  from merge_json_unprocessed [OF assms(1) j this] have "unprocessed (fst (snd j))" .
  then have "unprocessed (snd (fst j, fst (snd j)))" by simp
  from merge_followers_unprocessed [OF assms(1) f this] r show ?thesis by simp
qed

text \<open>
  C4. A streamer that the last loop of \<open>__reload_streamers\<close> finds unprocessed comes
  out of it marked as processed and, when \<open>viewer_is_mod\<close> reported the viewer as a
  moderator of it, with \<open>make_predictions\<close> set to false. When the method starts from
  streamers that are not processed (as in the first call of \<open>run\<close>, where the miner
  has none), this holds of every streamer it returns.
\<close>

theorem moderator_disables_predictions:
  "(populate env keys d = Ok d' \<and> u \<in> set keys \<and> map_of d u = Some s \<and> \<not> init_processed s
      \<longrightarrow> (\<exists>s'. map_of d' u = Some s' \<and> initialised s'
             \<and> viewer_is_mod s'
                 = viewer_is_mod (viewer_is_mod_call env
                     (check_streamer_online env (load_channel_points_context env s)))))
   \<and> (fresh_constructor env \<and> (\<forall>s. Instance s \<in> set args \<longrightarrow> \<not> init_processed s)
        \<and> (\<forall>s\<in>set (streamers m). \<not> init_processed s)
        \<and> reload_streamers env m args bl json fl fd = Ok r
      \<longrightarrow> (\<forall>s\<in>set (fst r). initialised s))"
proof (intro conjI impI)
  assume "populate env keys d = Ok d' \<and> u \<in> set keys \<and> map_of d u = Some s \<and> \<not> init_processed s"
  then show "\<exists>s'. map_of d' u = Some s' \<and> initialised s'
             \<and> viewer_is_mod s'
                 = viewer_is_mod (viewer_is_mod_call env
                     (check_streamer_online env (load_channel_points_context env s)))"
    using populate_new [of env keys d d' u s] by blast
next
  assume a: "fresh_constructor env \<and> (\<forall>s. Instance s \<in> set args \<longrightarrow> \<not> init_processed s)
        \<and> (\<forall>s\<in>set (streamers m). \<not> init_processed s)
        \<and> reload_streamers env m args bl json fl fd = Ok r"
  then obtain ms rg dd where ms: "merge_sources env m args bl json fl fd = Ok ms"
    and rg: "register env (fst ms) (fst (snd ms)) = Ok rg"
    and dd: "populate env (fst (snd rg)) (fst rg) = Ok dd"
    and r: "fst r = List.map_filter (map_of dd) (fst (snd rg))"
    by (auto simp: reload_streamers_def bind_res_Ok_iff)
  from a ms have "unprocessed (fst (snd ms))"
    using merge_sources_unprocessed [of env args m bl json fl fd ms] by blast
  from register_unprocessed [OF rg this] have un: "unprocessed (fst rg)" .
  show "\<forall>s\<in>set (fst r). initialised s"
  proof
    fix s' assume "s' \<in> set (fst r)"
    then obtain k where k: "k \<in> set (fst (snd rg))" and s': "map_of dd k = Some s'"
      by (auto simp: r map_filter_def)
    from populate_keys [OF dd, of k] s' obtain s0 where s0: "map_of (fst rg) k = Some s0"
      by (cases "map_of (fst rg) k") auto
    with un have "\<not> init_processed s0" by (auto simp: unprocessed_def)
    from populate_new [OF dd k s0 this] s' show "initialised s'" by auto
  qed
qed

lemma ex_env_fresh: "fresh_constructor ex_env"
  by (simp add: fresh_constructor_def ex_env_def ex_new_streamer_def)

theorem moderator_disables_predictions_witness:
  "(\<exists>d'. populate ex_env [''modded'']
            [(''modded'', ex_new_streamer ''modded'' (Some ex_settings))] = Ok d'
        \<and> (\<exists>s'. map_of d' ''modded'' = Some s' \<and> viewer_is_mod s' \<and> initialised s'))
   \<and> (\<exists>r. reload_streamers ex_env ex_miner [Name ''modded'', Name ''a''] [] None False [] = Ok r
        \<and> map username (fst r) = [''modded'', ''a'']
        \<and> map viewer_is_mod (fst r) = [True, False]
        \<and> (\<exists>st. settings (hd (fst r)) = Some st \<and> make_predictions st = Some False))"
proof (rule conjI)
  have "case populate ex_env [''modded'']
            [(''modded'', ex_new_streamer ''modded'' (Some ex_settings))] of
          Ok d' \<Rightarrow> True | Raise e \<Rightarrow> False | Hang \<Rightarrow> False"
    by code_simp
  then obtain d' where d': "populate ex_env [''modded'']
            [(''modded'', ex_new_streamer ''modded'' (Some ex_settings))] = Ok d'"
    by (cases "populate ex_env [''modded'']
            [(''modded'', ex_new_streamer ''modded'' (Some ex_settings))]") simp_all
  have k: "''modded'' \<in> set [''modded'']" by simp
  have m: "map_of [(''modded'', ex_new_streamer ''modded'' (Some ex_settings))] ''modded''
             = Some (ex_new_streamer ''modded'' (Some ex_settings))"
    by simp
  have n: "\<not> init_processed (ex_new_streamer ''modded'' (Some ex_settings))"
    by (simp add: ex_new_streamer_def)
  have v: "viewer_is_mod (viewer_is_mod_call ex_env (check_streamer_online ex_env
             (load_channel_points_context ex_env (ex_new_streamer ''modded'' (Some ex_settings)))))"
    by code_simp
  have h: "populate ex_env [''modded'']
            [(''modded'', ex_new_streamer ''modded'' (Some ex_settings))] = Ok d'
        \<and> ''modded'' \<in> set [''modded'']
        \<and> map_of [(''modded'', ex_new_streamer ''modded'' (Some ex_settings))] ''modded''
             = Some (ex_new_streamer ''modded'' (Some ex_settings))
        \<and> \<not> init_processed (ex_new_streamer ''modded'' (Some ex_settings))"
    using d' k m n by (intro conjI)
  from moderator_disables_predictions [THEN conjunct1, THEN mp, OF h]
  obtain s' where s1: "map_of d' ''modded'' = Some s'" and s2: "initialised s'"
    and s3: "viewer_is_mod s'
                 = viewer_is_mod (viewer_is_mod_call ex_env
                     (check_streamer_online ex_env (load_channel_points_context ex_env
                        (ex_new_streamer ''modded'' (Some ex_settings)))))"
    by (elim exE conjE)
  from s3 v have "viewer_is_mod s'" by (simp only:)
  with s1 s2 have "\<exists>s'. map_of d' ''modded'' = Some s' \<and> viewer_is_mod s' \<and> initialised s'"
    by (intro exI [of _ s'] conjI)
  with d' show "\<exists>d'. populate ex_env [''modded'']
            [(''modded'', ex_new_streamer ''modded'' (Some ex_settings))] = Ok d'
        \<and> (\<exists>s'. map_of d' ''modded'' = Some s' \<and> viewer_is_mod s' \<and> initialised s')"
    by (intro exI [of _ d'] conjI)
next
  have "case reload_streamers ex_env ex_miner [Name ''modded'', Name ''a''] [] None False [] of
          Ok r \<Rightarrow> map username (fst r) = [''modded'', ''a'']
                  \<and> map viewer_is_mod (fst r) = [True, False]
        | Raise e \<Rightarrow> False | Hang \<Rightarrow> False"
    by code_simp
  then obtain r
    where r: "reload_streamers ex_env ex_miner [Name ''modded'', Name ''a''] [] None False [] = Ok r"
      and u: "map username (fst r) = [''modded'', ''a'']"
      and w: "map viewer_is_mod (fst r) = [True, False]"
    by (cases "reload_streamers ex_env ex_miner [Name ''modded'', Name ''a''] [] None False []")
       simp_all
  have i: "\<forall>s. Instance s \<in> set [Name ''modded'', Name ''a''] \<longrightarrow> \<not> init_processed s"
    by simp
  have e: "\<forall>s\<in>set (streamers ex_miner). \<not> init_processed s"
    by (simp add: ex_miner_def)
  have h: "fresh_constructor ex_env
        \<and> (\<forall>s. Instance s \<in> set [Name ''modded'', Name ''a''] \<longrightarrow> \<not> init_processed s)
        \<and> (\<forall>s\<in>set (streamers ex_miner). \<not> init_processed s)
        \<and> reload_streamers ex_env ex_miner [Name ''modded'', Name ''a''] [] None False [] = Ok r"
    using ex_env_fresh i e r by (intro conjI)
  from moderator_disables_predictions [THEN conjunct2, THEN mp, OF h]
  have a: "\<forall>s\<in>set (fst r). initialised s" .
  from w obtain s0 rest where f: "fst r = s0 # rest" and m0: "viewer_is_mod s0"
    by (cases "fst r") simp_all
  from a f have "initialised s0" by simp
  with m0 obtain st where "settings s0 = Some st" and "make_predictions st = Some False"
    unfolding initialised_def by blast
  with f have "\<exists>st. settings (hd (fst r)) = Some st \<and> make_predictions st = Some False"
    by simp
  with r u w show "\<exists>r. reload_streamers ex_env ex_miner [Name ''modded'', Name ''a''] [] None False [] = Ok r
        \<and> map username (fst r) = [''modded'', ''a'']
        \<and> map viewer_is_mod (fst r) = [True, False]
        \<and> (\<exists>st. settings (hd (fst r)) = Some st \<and> make_predictions st = Some False)"
    by (intro exI [of _ r] conjI)
qed

text \<open>
  C10 on the code. The static list and the tracking file both name \<open>Foo\<close>, in a first
  call. The static list is entered under the key \<open>foo\<close> (lower case, stripped), the
  tracking file under the key \<open>Foo\<close> as written, so the test of line 329 does not find
  it and a second streamer is built from the same name: two entries with one user name,
  whether the constructor normalises the name or stores it as given. With \<open>foo\<close> in
  both sources there is one entry.
\<close>

theorem same_name_in_two_sources_gives_two_entries:
  "(case reload_streamers ex_env ex_miner [Name ''Foo''] [] (Some [(''Foo'', None)]) False [] of
      Ok r \<Rightarrow> map username (fst r) | Raise e \<Rightarrow> [] | Hang \<Rightarrow> []) = [''foo'', ''foo'']
   \<and> (case reload_streamers ex_env_raw ex_miner [Name ''Foo''] [] (Some [(''Foo'', None)]) False [] of
      Ok r \<Rightarrow> map username (fst r) | Raise e \<Rightarrow> [] | Hang \<Rightarrow> []) = [''Foo'', ''Foo'']
   \<and> (case reload_streamers ex_env ex_miner [Name ''foo''] [] (Some [(''foo'', None)]) False [] of
      Ok r \<Rightarrow> map username (fst r) | Raise e \<Rightarrow> [] | Hang \<Rightarrow> []) = [''foo'']"
  by code_simp

end
